theory Spec2Isabelle
  imports Complex_Main "HOL-Library.Word" "HOL-Library.Sublist"
begin

unbundle bit_operations_syntax

section \<open>Data model\<close>

text \<open>
  The program is \<^verbatim>\<open>ICL_Comet_tape_reader.py\<close>. Bytes of a \<^verbatim>\<open>bytearray\<close> are 8-bit
  words, Python's unbounded integers are \<open>int\<close> or \<open>nat\<close>, and every exception the code
  can raise is a value of \<open>py_error\<close>, returned as \<open>Inl\<close>.

  The entries of \<^verbatim>\<open>self.bits\<close> are the one-character strings \<^verbatim>\<open>'0'\<close> and \<^verbatim>\<open>'1'\<close>;
  they are modelled as \<open>False\<close> and \<open>True\<close>.

  \<^verbatim>\<open>self.tbit\<close> is a Python float, a binary64 number. It is modelled by the real number
  it denotes, and every operation that rounds is written with \<open>fl\<close>, the rounding to the
  nearest binary64 number, ties to even. The range of the exponent is not bounded in the
  model: the program's values are sample counts and averages of sample counts, far from
  overflow and underflow.
\<close>

type_synonym byte = "8 word"

datatype py_error = IndexError | ZeroDivisionError | UnicodeDecodeError | StructError | ValueError

definition THRESHOLD :: int where
  "THRESHOLD = 2500"

text \<open>
  Rounding to an integer, a tie going to the even one; the exponent \<open>e\<close> with
  \<open>2^e \<le> |x| < 2^(e+1)\<close>; and the binary64 number nearest to \<open>x\<close>, which is the multiple
  of \<open>2^(e-52)\<close> nearest to it, so that the significand has 53 bits.
\<close>

definition round_even :: "real \<Rightarrow> int" where
  "round_even y =
     (let f = \<lfloor>y\<rfloor>; r = y - of_int f
      in if r < 1 / 2 then f
         else if r > 1 / 2 then f + 1
         else if even f then f else f + 1)"

definition binade :: "real \<Rightarrow> int" where
  "binade x = \<lfloor>log 2 \<bar>x\<bar>\<rfloor>"

definition fl :: "real \<Rightarrow> real" where
  "fl x = (if x = 0 then 0
          else of_int (round_even (x / 2 powi (binade x - 52))) * 2 powi (binade x - 52))"

text \<open>The conversion of a Python integer to a float, as in \<^verbatim>\<open>pulse_width - self.tbit\<close>.\<close>

definition float_of_int :: "int \<Rightarrow> real" where
  "float_of_int n = fl (of_int n)"

text \<open>
  \<^verbatim>\<open>AVG\<close> is the integer 2. \<^verbatim>\<open>EDGE\<close> is the float that the literal \<^verbatim>\<open>0.72\<close> denotes, and
  \<^verbatim>\<open>BPS\<close> is the float 225.0.
\<close>

definition AVG :: real where
  "AVG = 2"

definition EDGE :: real where
  "EDGE = 3242591731706757 / 2 ^ 52"

definition BPS :: real where
  "BPS = (300 + 150) / 2"

record session =
  tbit :: real
  bits :: "bool list"
  records :: "byte list list"
  stdout :: "string list"
  nbr_priv :: int

text \<open>
  \<open>tbit\<close>, \<open>bits\<close> and \<open>records\<close> are the attributes of a \<^verbatim>\<open>CometTape\<close>; \<open>stdout\<close> collects
  the lines the object prints; \<open>nbr_priv\<close> is the local variable of \<^verbatim>\<open>analyze\<close> that
  holds the position of the last accepted edge.
\<close>

text \<open>The slice \<^verbatim>\<open>xs[i:j]\<close> for \<open>0 \<le> i\<close> and \<open>0 \<le> j\<close>; it never raises.\<close>

definition slice :: "'a list \<Rightarrow> nat \<Rightarrow> nat \<Rightarrow> 'a list" where
  "slice xs i j = drop i (take j xs)"

section \<open>Record validator and reporter\<close>

text \<open>
  Modelled from the spec: \<^verbatim>\<open>crcfunc\<close> is \<^verbatim>\<open>crcmod.predefined.mkPredefinedCrcFun("crc-16")\<close>,
  a library function that is not part of the repository. It is CRC-16/ARC: polynomial
  \<open>0x8005\<close> processed bit-reflected (\<open>0xA001\<close>), initial value 0, no final XOR.
\<close>

definition crc_shift :: "16 word \<Rightarrow> 16 word" where
  "crc_shift c = (if bit c 0 then drop_bit 1 c XOR 0xA001 else drop_bit 1 c)"

definition crc_update :: "16 word \<Rightarrow> byte \<Rightarrow> 16 word" where
  "crc_update c b = (crc_shift ^^ 8) (c XOR ucast b)"

definition crcfunc :: "byte list \<Rightarrow> 16 word" where
  "crcfunc data = foldl crc_update 0 data"

definition hexdigits :: string where
  "hexdigits = ''0123456789abcdef''"

text \<open>\<^verbatim>\<open>str(n)\<close> for a natural number, and the format \<^verbatim>\<open>"%5d"\<close>.\<close>

function decimal :: "nat \<Rightarrow> string" where
  "decimal n = (if n < 10 then [hexdigits ! n] else decimal (n div 10) @ [hexdigits ! (n mod 10)])"
  by pat_completeness auto
termination
  by (relation "measure id") auto

declare decimal.simps [simp del]

definition fmt_5d :: "nat \<Rightarrow> string" where
  "fmt_5d n = replicate (5 - length (decimal n)) CHR '' '' @ decimal n"

text \<open>\<^verbatim>\<open>bytearray.hex()\<close>: two lower-case digits for each byte.\<close>

definition hex_byte :: "byte \<Rightarrow> string" where
  "hex_byte b = [hexdigits ! (unat b div 16), hexdigits ! (unat b mod 16)]"

definition hex :: "byte list \<Rightarrow> string" where
  "hex bs = concat (map hex_byte bs)"

text \<open>The character U+2026 between the two halves of a long dump, as its UTF-8 bytes.\<close>

definition ellipsis :: string where
  "ellipsis = [CHR 0xE2, CHR 0x80, CHR 0xA6]"

text \<open>
  \<^verbatim>\<open>report_record\<close>. The slices \<^verbatim>\<open>octets[1:-1]\<close>, \<^verbatim>\<open>octets[:4]\<close> and \<^verbatim>\<open>octets[-4:]\<close> never
  raise; \<^verbatim>\<open>octets[0]\<close> raises \<^verbatim>\<open>IndexError\<close> on an empty record, after the CRC and the dump
  have been computed.
\<close>

definition report_record :: "byte list \<Rightarrow> py_error + string" where
  "report_record octets =
     (let crc = crcfunc (slice octets 1 (length octets - 1));
          text = fmt_5d (length octets) @ '' bytes'';
          text = text @ '' ['';
          text = (if length octets \<le> 8 then text @ hex octets
                  else text @ hex (take 4 octets) @ ellipsis
                         @ hex (drop (length octets - 4) octets));
          text = text @ '']''
      in if octets = [] then Inl IndexError
         else
           let text = (if hd octets \<noteq> 0xAA then text @ '' Bad_preamble'' else text);
               text = (if last octets \<noteq> 0xAA then text @ '' Bad_postamble'' else text);
               text = (if crc \<noteq> 0 then text @ '' Bad_CRC'' else text)
           in Inr text)"

section \<open>Record assembler\<close>

text \<open>
  \<^verbatim>\<open>int(s, 2)\<close> on a string of binary digits, most significant digit first; the empty
  string raises \<^verbatim>\<open>ValueError\<close>.
\<close>

definition int_base2 :: "bool list \<Rightarrow> py_error + nat" where
  "int_base2 s = (if s = [] then Inl ValueError
                  else Inr (foldl (\<lambda>acc c. 2 * acc + of_bool c) 0 s))"

text \<open>
  The loop \<^verbatim>\<open>for i in range(0, len(self.bits), 8)\<close> of \<^verbatim>\<open>add_record\<close>; each round appends
  \<^verbatim>\<open>int("".join(self.bits[i:i+8][::-1]), 2)\<close>.
\<close>

function octets_loop :: "bool list \<Rightarrow> nat \<Rightarrow> py_error + nat list" where
  "octets_loop bs i =
     (if i < length bs then
        (case int_base2 (rev (slice bs i (i + 8))) of
           Inl e \<Rightarrow> Inl e
         | Inr v \<Rightarrow> (case octets_loop bs (i + 8) of
                      Inl e \<Rightarrow> Inl e
                    | Inr vs \<Rightarrow> Inr (v # vs)))
      else Inr [])"
  by pat_completeness auto
termination
  by (relation "measure (\<lambda>(bs, i). length bs - i)") auto

declare octets_loop.simps [simp del]

text \<open>\<^verbatim>\<open>bytearray(octets)\<close> raises \<^verbatim>\<open>ValueError\<close> when a value is not in \<open>range(256)\<close>.\<close>

definition bytearray :: "nat list \<Rightarrow> py_error + byte list" where
  "bytearray vs = (if \<forall>v \<in> set vs. v < 256 then Inr (map of_nat vs) else Inl ValueError)"

text \<open>Lines 133 to 136 of \<^verbatim>\<open>add_record\<close>: the record before the trailing zero is stripped.\<close>

definition assemble :: "bool list \<Rightarrow> py_error + byte list" where
  "assemble bs = (case octets_loop bs 0 of Inl e \<Rightarrow> Inl e | Inr vs \<Rightarrow> bytearray vs)"

text \<open>\<^verbatim>\<open>add_record\<close>; its argument (the position of the current edge) is not used.\<close>

definition add_record :: "session \<Rightarrow> int \<Rightarrow> py_error + session" where
  "add_record s nbr =
     (let nbits = length (bits s) in
      if nbits < 48 then Inr (s\<lparr>bits := []\<rparr>)
      else
        (case assemble (bits s) of
           Inl e \<Rightarrow> Inl e
         | Inr octets \<Rightarrow>
             if octets = [] then Inl IndexError
             else
               let octets = (if last octets = 0 then butlast octets else octets) in
               (case report_record octets of
                  Inl e \<Rightarrow> Inl e
                | Inr text \<Rightarrow>
                    Inr (s\<lparr>stdout := stdout s @ [''RECORD '' @ text],
                           records := records s @ [octets],
                           bits := []\<rparr>))))"

section \<open>Edge detector\<close>

record wavtrack =
  track_no :: nat
  sound :: "byte list"
  offset :: nat
  span :: nat
  rate :: int

text \<open>
  \<^verbatim>\<open>WAVFile.__iter__\<close> is the only place that builds a \<^verbatim>\<open>WAVTrack\<close>: channel \<open>chan\<close> of
  \<open>nchannels\<close> starts at byte \<open>chan * 2\<close> and steps by \<open>nchannels * 2\<close>, so offset and
  step are natural numbers.
\<close>

definition wavfile_iter :: "nat \<Rightarrow> byte list \<Rightarrow> int \<Rightarrow> wavtrack list" where
  "wavfile_iter nchannels frames framerate =
     map (\<lambda>chan. \<lparr>track_no = chan, sound = frames, offset = chan * 2,
                   span = nchannels * 2, rate = framerate\<rparr>) [0..<nchannels]"

text \<open>
  A generator is modelled by what it yields, in order, and by the exception that ends
  it, if one does.

  The loop of \<^verbatim>\<open>WAVTrack.__iter__\<close> from position \<open>nbr\<close> on. \<^verbatim>\<open>self.sound[nbr+1]\<close> raises
  \<^verbatim>\<open>IndexError\<close> when the last sample is cut short.
\<close>

function track_loop ::
  "byte list \<Rightarrow> nat \<Rightarrow> nat \<Rightarrow> int \<Rightarrow> int \<Rightarrow> (int \<times> int) list \<times> py_error option" where
  "track_loop snd_bytes step nbr sign prev_sign =
     (if step = 0 then ([], Some ValueError)
      else if length snd_bytes \<le> nbr then ([], None)
      else if length snd_bytes \<le> nbr + 1 then ([], Some IndexError)
      else
        let samp = uint (snd_bytes ! nbr) + uint (snd_bytes ! (nbr + 1)) * 256;
            samp = (if samp > 32767 then samp - 65536 else samp);
            sign = (if samp > THRESHOLD then 1
                    else if samp < - THRESHOLD then - 1
                    else sign);
            rest = track_loop snd_bytes step (nbr + step) sign sign
        in if sign \<noteq> prev_sign then ((int nbr, sign) # fst rest, snd rest) else rest)"
  by pat_completeness auto
termination
  by (relation "measure (\<lambda>(sb, step, nbr, sign, prev). length sb - nbr)") auto

declare track_loop.simps [simp del]

definition track_iter :: "wavtrack \<Rightarrow> (int \<times> int) list \<times> py_error option" where
  "track_iter t = track_loop (sound t) (span t) (offset t) 0 0"

section \<open>Bit synchronizer\<close>

text \<open>The a-priori estimate \<^verbatim>\<open>self.track.rate / BPS\<close>, an integer divided by a float.\<close>

definition seed :: "wavtrack \<Rightarrow> real" where
  "seed t = fl (float_of_int (rate t) / BPS)"

text \<open>
  One round of the loop of \<^verbatim>\<open>analyze\<close> for the edge \<open>e = (nbr, sign)\<close>. Every branch
  formats \<^verbatim>\<open>pulse_width / self.tbit\<close> for the trace file, which raises
  \<^verbatim>\<open>ZeroDivisionError\<close> when the estimate is zero; the text of the trace is not modelled.

  Python compares an integer with a float exactly, and \<^verbatim>\<open>4 * self.tbit\<close> is exact in
  binary64, so the boundary test is a comparison of real numbers. \<^verbatim>\<open>EDGE * self.tbit\<close>
  rounds, and so does each of the three operations of
  \<^verbatim>\<open>self.tbit += (pulse_width - self.tbit) / AVG\<close>.
\<close>

definition analyze_step :: "wavtrack \<Rightarrow> session \<Rightarrow> int \<times> int \<Rightarrow> py_error + session" where
  "analyze_step t s e =
     (let nbr = fst e; sign = snd e;
          pulse_width = nbr - nbr_priv s
      in
      if real_of_int pulse_width > 4 * tbit s then
        (case add_record s nbr of
           Inl err \<Rightarrow> Inl err
         | Inr s1 \<Rightarrow>
             if tbit s1 = 0 then Inl ZeroDivisionError
             else if sign = 1 then
               Inr (s1\<lparr>nbr_priv := nbr, bits := [False], tbit := seed t\<rparr>)
             else Inr s1)
      else if real_of_int pulse_width < fl (EDGE * tbit s) \<and> length (bits s) > 7 then
        (if tbit s = 0 then Inl ZeroDivisionError else Inr s)
      else
        (if tbit s = 0 then Inl ZeroDivisionError
         else
           Inr (s\<lparr>nbr_priv := nbr,
                  tbit := fl (tbit s + fl (fl (float_of_int pulse_width - tbit s) / AVG)),
                  bits := bits s @ [if sign > 0 then False else True]\<rparr>)))"

fun analyze_loop :: "wavtrack \<Rightarrow> session \<Rightarrow> (int \<times> int) list \<Rightarrow> py_error + session" where
  "analyze_loop t s [] = Inr s"
| "analyze_loop t s (e # es) =
     (case analyze_step t s e of
        Inl err \<Rightarrow> Inl err
      | Inr s1 \<Rightarrow> analyze_loop t s1 es)"

text \<open>
  \<^verbatim>\<open>analyze\<close> on the edges the track yields: the loop, then the final \<^verbatim>\<open>add_record\<close>. An
  exception of the track's generator ends the loop after the edges yielded before it.
\<close>

definition analyze_edges ::
  "wavtrack \<Rightarrow> session \<Rightarrow> (int \<times> int) list \<times> py_error option \<Rightarrow> py_error + session" where
  "analyze_edges t s es =
     (let s0 = s\<lparr>tbit := seed t, bits := [], nbr_priv := 0\<rparr> in
      case analyze_loop t s0 (fst es) of
        Inl err \<Rightarrow> Inl err
      | Inr s1 \<Rightarrow>
          (case snd es of
             Some err \<Rightarrow> Inl err
           | None \<Rightarrow> add_record s1 (if fst es = [] then 0 else fst (last (fst es)))))"

definition analyze :: "wavtrack \<Rightarrow> session \<Rightarrow> py_error + session" where
  "analyze t s = analyze_edges t s (track_iter t)"

section \<open>Tape container writer\<close>

text \<open>\<^verbatim>\<open>struct.pack("<L", n)\<close>: four bytes, low byte first; \<^verbatim>\<open>struct.error\<close> from \<open>2^32\<close> on.\<close>

definition pack_L :: "nat \<Rightarrow> py_error + byte list" where
  "pack_L n =
     (if n < 2 ^ 32
      then Inr [of_nat n, of_nat (n div 2 ^ 8), of_nat (n div 2 ^ 16), of_nat (n div 2 ^ 24)]
      else Inl StructError)"

text \<open>The loop of \<^verbatim>\<open>write_tapfile\<close>; \<open>tap\<close> is what has been written to the file so far.\<close>

fun tap_loop :: "byte list \<Rightarrow> byte list list \<Rightarrow> py_error + byte list" where
  "tap_loop tap [] = Inr tap"
| "tap_loop tap (rec # recs) =
     (case pack_L (length rec) of
        Inl e \<Rightarrow> Inl e
      | Inr reclen \<Rightarrow>
          let tap = tap @ reclen;
              tap = tap @ rec;
              tap = (if odd (length rec) then tap @ [0] else tap);
              tap = tap @ reclen
          in tap_loop tap recs)"

definition write_tapfile :: "session \<Rightarrow> py_error + byte list" where
  "write_tapfile s =
     (case tap_loop [] (records s) of
        Inl e \<Rightarrow> Inl e
      | Inr tap \<Rightarrow> Inr (tap @ [0xFF, 0xFF, 0xFF, 0xFF]))"

section \<open>Tape header\<close>

text \<open>
  \<^verbatim>\<open>bytes.decode('ASCII')\<close> raises \<^verbatim>\<open>UnicodeDecodeError\<close> on a byte above \<open>0x7F\<close>;
  \<^verbatim>\<open>str.rstrip()\<close> removes the trailing white space of a string.
\<close>

definition decode_ascii :: "byte list \<Rightarrow> py_error + string" where
  "decode_ascii bs =
     (if \<forall>b \<in> set bs. b < 0x80 then Inr (map (\<lambda>b. char_of (unat b)) bs)
      else Inl UnicodeDecodeError)"

definition isspace :: "char \<Rightarrow> bool" where
  "isspace c = ((of_char c :: nat) \<in> {9, 10, 11, 12, 13, 28, 29, 30, 31, 32})"

definition rstrip :: "string \<Rightarrow> string" where
  "rstrip s = rev (dropWhile isspace (rev s))"

text \<open>
  What \<^verbatim>\<open>interpret_tape_header\<close> yields, what it prints, and the exception that ends it.
  A printed line is either the report of a decode failure or a hex dump.
\<close>

datatype log_line = Bork py_error | Dump string

record gen_result =
  yielded :: "string list"
  printed :: "log_line list"
  raised :: "py_error option"

definition gen_return :: gen_result where
  "gen_return = \<lparr>yielded = [], printed = [], raised = None\<rparr>"

definition gen_raise :: "py_error \<Rightarrow> gen_result" where
  "gen_raise e = \<lparr>yielded = [], printed = [], raised = Some e\<rparr>"

definition gen_yield :: "string \<Rightarrow> gen_result \<Rightarrow> gen_result" where
  "gen_yield x g = g\<lparr>yielded := x # yielded g\<rparr>"

definition gen_print :: "log_line \<Rightarrow> gen_result \<Rightarrow> gen_result" where
  "gen_print l g = g\<lparr>printed := l # printed g\<rparr>"

text \<open>
  The \<^verbatim>\<open>while\<close> loop over the file entries. \<^verbatim>\<open>head[index]\<close> is read before the length is
  tested, so it raises \<^verbatim>\<open>IndexError\<close> when \<open>index\<close> is beyond the record.
\<close>

function file_loop :: "byte list \<Rightarrow> nat \<Rightarrow> gen_result" where
  "file_loop head index =
     (if length head \<le> index then gen_raise IndexError
      else if 0x20 < head ! index \<and> head ! index < 0x6E
              \<and> int index \<le> int (length head) - 29 then
        (case decode_ascii (slice head index (index + 10)) of
           Inl err \<Rightarrow>
             gen_print (Bork err) (gen_print (Dump (hex (slice head index (index + 26)))) gen_return)
         | Inr filename \<Rightarrow>
             (case decode_ascii (slice head (index + 10) (index + 13)) of
                Inl err \<Rightarrow>
                  gen_print (Bork err)
                    (gen_print (Dump (hex (slice head index (index + 26)))) gen_return)
              | Inr extension \<Rightarrow>
                  gen_yield ([CHR 0x09] @ rstrip filename @ ''.'' @ rstrip extension)
                    (file_loop head (index + 26))))
      else gen_return)"
  by pat_completeness auto
termination
  by (relation "measure (\<lambda>(head, index). length head - index)") auto

declare file_loop.simps [simp del]

definition interpret_tape_header :: "session \<Rightarrow> gen_result" where
  "interpret_tape_header s =
     (if records s = [] then gen_raise IndexError
      else
        let head = hd (records s) in
        if length head \<le> 0 then gen_raise IndexError
        else if head ! 0 \<noteq> 0xAA then gen_return
        else if length head \<le> 1 then gen_raise IndexError
        else if head ! 1 \<noteq> 0 then gen_return
        else if length head \<le> 2 then gen_raise IndexError
        else if head ! 2 \<noteq> 0 then gen_return
        else
          let index = 4 in
          (case decode_ascii (slice head index (index + 50)) of
             Inl err \<Rightarrow> gen_raise err
           | Inr label \<Rightarrow>
               let label = rstrip label;
                   index = index + 50;
                   index = index + 13
               in gen_yield ''Tape label:''
                    (gen_yield ([CHR 0x09] @ label)
                       (gen_yield ''File list:'' (file_loop head index)))))"

section \<open>Vocabulary of the proofs\<close>

text \<open>The value of the group of up to eight bits that starts at bit \<open>i\<close>, first bit lowest.\<close>

definition group_value :: "bool list \<Rightarrow> nat \<Rightarrow> nat" where
  "group_value bs i = horner_sum of_bool 2 (slice bs i (i + 8))"

text \<open>The step \<^verbatim>\<open>if not octets[-1]: octets = octets[:-1]\<close> of \<^verbatim>\<open>add_record\<close>.\<close>

definition strip_zero :: "byte list \<Rightarrow> byte list" where
  "strip_zero octets = (if last octets = 0 then butlast octets else octets)"

text \<open>Concrete inputs.\<close>

definition tape0 :: session where
  "tape0 = \<lparr>tbit = 196, bits = [], records = [], stdout = [], nbr_priv = 0\<rparr>"

definition bits49 :: "bool list" where
  "bits49 = replicate 48 False @ [True]"

definition track0 :: wavtrack where
  "track0 = \<lparr>track_no = 0, sound = [], offset = 0, span = 2, rate = 44100\<rparr>"

text \<open>Forty-eight edges, 196 samples apart, of alternating sign.\<close>

definition edges48 :: "(int \<times> int) list" where
  "edges48 = map (\<lambda>k. (196 * int k, if odd k then 1 else - 1)) [1..<49]"

text \<open>
  The signed 16-bit sample at byte \<open>nbr\<close> (lines 277 to 279 of \<^verbatim>\<open>WAVTrack.__iter__\<close>) and
  the update of the sign by one sample (lines 281 to 284).
\<close>

definition sample_at :: "byte list \<Rightarrow> nat \<Rightarrow> int" where
  "sample_at sb nbr =
     (let samp = uint (sb ! nbr) + uint (sb ! (nbr + 1)) * 256
      in if samp > 32767 then samp - 65536 else samp)"

definition hysteresis :: "int \<Rightarrow> int \<Rightarrow> int" where
  "hysteresis sign samp =
     (if samp > THRESHOLD then 1 else if samp < - THRESHOLD then - 1 else sign)"

text \<open>
  The edge detector as the specification words it: \<open>emitted\<close> is the sign of the event
  emitted last, 0 before any event, and a sample yields an event exactly when its updated
  sign differs from \<open>emitted\<close>.
\<close>

function edge_spec ::
  "byte list \<Rightarrow> nat \<Rightarrow> nat \<Rightarrow> int \<Rightarrow> int \<Rightarrow> (int \<times> int) list \<times> py_error option" where
  "edge_spec sb step nbr sign emitted =
     (if step = 0 then ([], Some ValueError)
      else if length sb \<le> nbr then ([], None)
      else if length sb \<le> nbr + 1 then ([], Some IndexError)
      else
        let sign = hysteresis sign (sample_at sb nbr)
        in if sign \<noteq> emitted
           then (let rest = edge_spec sb step (nbr + step) sign sign
                 in ((int nbr, sign) # fst rest, snd rest))
           else edge_spec sb step (nbr + step) sign emitted)"
  by pat_completeness auto
termination
  by (relation "measure (\<lambda>(sb, step, nbr, sign, emitted). length sb - nbr)") auto

declare edge_spec.simps [simp del]

definition wav5 :: wavtrack where
  "wav5 = \<lparr>track_no = 0, sound = [0, 0x10, 0, 0, 0, 0xF0, 1, 0, 0, 0x20], offset = 0, span = 2,
            rate = 44100\<rparr>"

text \<open>
  The tape image as the specification words it: the length as four bytes, low byte
  first, the record, a zero byte after an odd length, the length again.
\<close>

definition le32 :: "nat \<Rightarrow> byte list" where
  "le32 n = map (\<lambda>i. of_nat (n div 256 ^ i mod 256)) [0..<4]"

text \<open>The number that a byte sequence denotes, low byte first.\<close>

definition le_value :: "byte list \<Rightarrow> nat" where
  "le_value bs = foldr (\<lambda>b acc. unat b + 256 * acc) bs 0"

definition tap_block :: "byte list \<Rightarrow> byte list" where
  "tap_block r = le32 (length r) @ r @ (if odd (length r) then [0] else []) @ le32 (length r)"

text \<open>Eight edges 196 samples apart, and the session after them.\<close>

definition edges8 :: "(int \<times> int) list" where
  "edges8 = map (\<lambda>k. (196 * int k, if odd k then 1 else - 1)) [1..<9]"

definition tape8 :: session where
  "tape8 = tape0\<lparr>nbr_priv := 1568, bits := [False, True, False, True, False, True, False, True]\<rparr>"

text \<open>The summary of \<^verbatim>\<open>report_record\<close> before its flags: byte count and hex dump.\<close>

definition summary_head :: "byte list \<Rightarrow> string" where
  "summary_head octets =
     fmt_5d (length octets) @ '' bytes'' @ '' [''
       @ (if length octets \<le> 8 then hex octets
          else hex (take 4 octets) @ ellipsis @ hex (drop (length octets - 4) octets))
       @ '']''"

text \<open>
  A record with a good preamble, a zero at its end and a bad CRC; and a record that
  frames the digits 1 to 9 with their CRC-16/ARC, \<open>0xBB3D\<close>, low byte first.
\<close>

definition rec5 :: "byte list" where
  "rec5 = [0xAA, 1, 2, 3, 0]"

definition rec13 :: "byte list" where
  "rec13 = [0xAA, 0x31, 0x32, 0x33, 0x34, 0x35, 0x36, 0x37, 0x38, 0x39, 0x3D, 0xBB, 0xAA]"

text \<open>
  The file entries of a tape header. The slot at byte \<open>i\<close> is listed when its first byte
  lies strictly between \<open>0x20\<close> and \<open>0x6E\<close> and at least 29 bytes remain from \<open>i\<close> on:
  the test of the loop is \<^verbatim>\<open>index <= len(head) - 29\<close>, the 26 bytes of the slot and 3 more.
\<close>

definition listable :: "byte list \<Rightarrow> nat \<Rightarrow> bool" where
  "listable head i \<longleftrightarrow>
     i < length head \<and> 0x20 < head ! i \<and> head ! i < 0x6E \<and> i + 29 \<le> length head"

definition is_ascii :: "byte list \<Rightarrow> bool" where
  "is_ascii bs \<longleftrightarrow> (\<forall>b \<in> set bs. b < 0x80)"

definition to_str :: "byte list \<Rightarrow> string" where
  "to_str bs = map (\<lambda>b. char_of (unat b)) bs"

definition entry_at :: "byte list \<Rightarrow> nat \<Rightarrow> string" where
  "entry_at head i =
     [CHR 0x09] @ rstrip (to_str (slice head i (i + 10))) @ ''.''
       @ rstrip (to_str (slice head (i + 10) (i + 13)))"

text \<open>What the loop prints for the slot at byte \<open>i\<close> when it cannot be decoded.\<close>

definition bork :: "byte list \<Rightarrow> nat \<Rightarrow> log_line list" where
  "bork head i = [Bork UnicodeDecodeError, Dump (hex (slice head i (i + 26)))]"

text \<open>
  A header of 93 bytes: blank label, then one slot of exactly 26 bytes that starts with
  \<open>A\<close>. A header of 96 bytes: label \<open>TAPE\<close>, one slot \<open>PROG\<close>, \<open>BAS\<close>, and three bytes more.
\<close>

definition head93 :: "byte list" where
  "head93 = [0xAA, 0, 0, 0] @ replicate 50 0x20 @ replicate 13 0 @ [0x41] @ replicate 25 0x20"

definition head96 :: "byte list" where
  "head96 = [0xAA, 0, 0, 0] @ [0x54, 0x41, 0x50, 0x45] @ replicate 46 0x20 @ replicate 13 0
            @ [0x50, 0x52, 0x4F, 0x47] @ replicate 6 0x20 @ [0x42, 0x41, 0x53] @ replicate 13 0
            @ [0, 0, 0xAA]"

text \<open>The bit that the data case appends for an edge: \<^verbatim>\<open>'0'\<close> for a positive sign.\<close>

definition bit_of :: "int \<times> int \<Rightarrow> bool" where
  "bit_of e = (if snd e > 0 then False else True)"

text \<open>
  A run of edges that are all accepted as data bits with the same pulse width \<open>T\<close>: each
  edge lies \<open>T\<close> samples after the last accepted one and meets neither the boundary test
  nor the glitch test of \<^verbatim>\<open>analyze\<close>, and the rest is such a run from the state that
  \<^verbatim>\<open>analyze\<close> is in after the edge.
\<close>

fun data_run :: "wavtrack \<Rightarrow> int \<Rightarrow> session \<Rightarrow> (int \<times> int) list \<Rightarrow> bool" where
  "data_run t T s [] = True"
| "data_run t T s (e # es) =
     (fst e - nbr_priv s = T \<and> tbit s \<noteq> 0
      \<and> \<not> real_of_int T > 4 * tbit s
      \<and> \<not> (real_of_int T < fl (EDGE * tbit s) \<and> length (bits s) > 7)
      \<and> (case analyze_step t s e of Inl err \<Rightarrow> False | Inr s1 \<Rightarrow> data_run t T s1 es))"

text \<open>\<open>n\<close> edges of alternating sign, \<open>T\<close> samples apart, the first at \<open>p + T\<close> with sign \<open>sg\<close>.\<close>

fun spaced :: "int \<Rightarrow> int \<Rightarrow> int \<Rightarrow> nat \<Rightarrow> (int \<times> int) list" where
  "spaced p T sg 0 = []"
| "spaced p T sg (Suc n) = (p + T, sg) # spaced (p + T) T (- sg) n"

text \<open>
  Edges with the pulse widths 54, 45 times 124, and 126, and the state of the analysis
  of \<open>track0\<close> after them. Fifty-one edges 100 samples apart, and the state after them.
\<close>

definition edges47 :: "(int \<times> int) list" where
  "edges47 = (54, 1) # spaced 54 124 (- 1) 45 @ [(5760, 1)]"

definition tape47 :: session where
  "tape47 = tape0\<lparr>nbr_priv := 5760, tbit := 125 + 1 / 2 ^ 46, bits := map bit_of edges47\<rparr>"

definition edges51 :: "(int \<times> int) list" where
  "edges51 = spaced 0 100 1 51"

definition tape51 :: session where
  "tape51 = tape0\<lparr>nbr_priv := 5100, tbit := 100 + 3 / 2 ^ 46, bits := map bit_of edges51\<rparr>"

section \<open>Rounding to binary64\<close>

lemma round_even_error: "\<bar>of_int (round_even y) - y\<bar> \<le> 1 / 2"
proof -
  have "of_int \<lfloor>y\<rfloor> \<le> y" "y < of_int \<lfloor>y\<rfloor> + 1" by linarith+
  then show ?thesis by (auto simp add: round_even_def Let_def)
qed

lemma round_even_unique: "\<bar>of_int n - y\<bar> < 1 / 2 \<Longrightarrow> round_even y = n"
proof -
  assume a: "\<bar>of_int n - y\<bar> < 1 / 2"
  have "\<bar>of_int (round_even y) - y\<bar> \<le> 1 / 2" by (rule round_even_error)
  with a have "\<bar>real_of_int (round_even y) - of_int n\<bar> < 1" by linarith
  then have "\<bar>real_of_int (round_even y - n)\<bar> < 1" by simp
  then have "\<bar>round_even y - n\<bar> < 1" by linarith
  then show ?thesis by simp
qed

lemma round_even_int [simp]: "round_even (of_int n) = n"
  by (rule round_even_unique) simp

lemma round_even_tie:
  "y = of_int n + 1 / 2 \<Longrightarrow> round_even y = (if even n then n else n + 1)"
proof -
  assume y: "y = of_int n + 1 / 2"
  then have "\<lfloor>y\<rfloor> = n" by linarith
  with y show ?thesis by (simp add: round_even_def Let_def)
qed

lemma binade_iff:
  "x \<noteq> 0 \<Longrightarrow> binade x = e \<longleftrightarrow> 2 powi e \<le> \<bar>x\<bar> \<and> \<bar>x\<bar> < 2 powi (e + 1)"
proof -
  assume "x \<noteq> 0"
  then have p: "0 < \<bar>x\<bar>" by simp
  have "\<lfloor>log 2 \<bar>x\<bar>\<rfloor> = e \<longleftrightarrow> 2 powr (of_int e) \<le> \<bar>x\<bar> \<and> \<bar>x\<bar> < 2 powr (of_int e + 1)"
    using floor_log_eq_powr_iff [OF p, of 2 e] by simp
  moreover have "(2::real) powr (of_int e) = 2 powi e"
    by (simp add: powr_real_of_int')
  moreover have "(2::real) powr (of_int e + 1) = 2 powi (e + 1)"
    using powr_real_of_int' [of 2 "e + 1"] by simp
  ultimately show ?thesis by (simp add: binade_def)
qed

lemma binade_bounds:
  "x \<noteq> 0 \<Longrightarrow> 2 powi binade x \<le> \<bar>x\<bar> \<and> \<bar>x\<bar> < 2 powi (binade x + 1)"
  using binade_iff [of x "binade x"] by simp

lemma binade_eq: "2 powi e \<le> \<bar>x\<bar> \<Longrightarrow> \<bar>x\<bar> < 2 powi (e + 1) \<Longrightarrow> binade x = e"
proof -
  assume a: "2 powi e \<le> \<bar>x\<bar>" "\<bar>x\<bar> < 2 powi (e + 1)"
  have "(0::real) < 2 powi e" by simp
  with a(1) have "0 < \<bar>x\<bar>" by linarith
  then have "x \<noteq> 0" by simp
  with a show ?thesis by (simp add: binade_iff)
qed

lemma fl_eval:
  "2 powi e \<le> \<bar>x\<bar> \<Longrightarrow> \<bar>x\<bar> < 2 powi (e + 1) \<Longrightarrow>
   fl x = of_int (round_even (x / 2 powi (e - 52))) * 2 powi (e - 52)"
proof -
  assume a: "2 powi e \<le> \<bar>x\<bar>" "\<bar>x\<bar> < 2 powi (e + 1)"
  have "(0::real) < 2 powi e" by simp
  with a(1) have "0 < \<bar>x\<bar>" by linarith
  then have "x \<noteq> 0" by simp
  with binade_eq [OF a] show ?thesis by (simp add: fl_def)
qed

lemma quantum: "(2::real) powi (e - 52) = 2 powi e / 2 ^ 52"
  by (simp add: power_int_diff)

lemma fl_error: "\<bar>fl x - x\<bar> \<le> \<bar>x\<bar> / 2 ^ 53"
proof (cases "x = 0")
  case True
  then show ?thesis by (simp add: fl_def)
next
  case False
  define q :: real where "q = 2 powi (binade x - 52)"
  define r where "r = round_even (x / q)"
  have q: "0 < q" by (simp add: q_def)
  have "fl x - x = (of_int r - x / q) * q"
    using False q by (simp add: fl_def q_def r_def field_simps)
  then have "\<bar>fl x - x\<bar> = \<bar>of_int r - x / q\<bar> * q"
    using q by (simp add: abs_mult)
  also have "\<dots> \<le> 1 / 2 * q"
    using round_even_error [of "x / q"] q unfolding r_def
    by (intro mult_right_mono) simp_all
  also have "\<dots> = 2 powi binade x / 2 ^ 53"
    by (simp add: q_def quantum)
  also have "\<dots> \<le> \<bar>x\<bar> / 2 ^ 53"
    using binade_bounds [OF False] by (intro divide_right_mono) simp_all
  finally show ?thesis .
qed

lemma fl_lower: "x - \<bar>x\<bar> / 2 ^ 53 \<le> fl x" and fl_upper: "fl x \<le> x + \<bar>x\<bar> / 2 ^ 53"
  using fl_error [of x] by linarith+

lemma fl_pos: "0 < x \<Longrightarrow> 0 < fl x"
proof -
  assume p: "0 < x"
  then have "x / 2 ^ 53 < x" by simp
  with p fl_lower [of x] show ?thesis by simp
qed

lemma fl_pos_imp: "0 < fl x \<Longrightarrow> 0 < x"
proof (rule ccontr)
  assume p: "0 < fl x" and n: "\<not> 0 < x"
  then have "\<bar>x\<bar> / 2 ^ 53 \<le> \<bar>x\<bar>" by (simp add: divide_le_eq)
  with n fl_upper [of x] have "fl x \<le> 0" by simp
  with p show False by simp
qed

lemma fl_zero [simp]: "fl 0 = 0"
  by (simp add: fl_def)

lemma powi2_add: "(2::real) powi a * 2 powi b = 2 powi (a + b)"
  by (simp add: power_int_add)

lemma powi2_less_iff: "(2::real) powi a < 2 powi b \<longleftrightarrow> a < b"
proof
  assume l: "(2::real) powi a < 2 powi b"
  show "a < b"
  proof (rule ccontr)
    assume "\<not> a < b"
    then have "b \<le> a" by simp
    then have "(2::real) powi b \<le> 2 powi a" by (rule power_int_increasing) simp
    with l show False by simp
  qed
next
  assume "a < b"
  then show "(2::real) powi a < 2 powi b" by (rule power_int_strict_increasing) simp
qed

lemma fl_dyadic:
  assumes "\<bar>m\<bar> < 2 ^ 53"
  shows "fl (of_int m * 2 powi k) = of_int m * 2 powi k"
proof (cases "m = 0")
  case True
  then show ?thesis by simp
next
  case False
  define j where "j = binade (of_int m)"
  have m0: "real_of_int m \<noteq> 0" using False by simp
  from binade_bounds [OF m0] have b: "2 powi j \<le> \<bar>real_of_int m\<bar>" "\<bar>real_of_int m\<bar> < 2 powi (j + 1)"
    by (simp_all add: j_def)
  have "\<bar>real_of_int m\<bar> < 2 ^ 53" using assms by (metis of_int_abs of_int_less_numeral_power_cancel_iff)
  with b(1) have "(2::real) powi j < 2 powi 53" by simp
  then have j53: "j < 53" by (simp only: powi2_less_iff)
  have "1 \<le> \<bar>real_of_int m\<bar>" using False by (metis of_int_abs of_int_1_le_iff abs_ge_zero zero_less_abs_iff int_one_le_iff_zero_less)
  with b(2) have "(2::real) powi 0 < 2 powi (j + 1)" by simp
  then have "0 < j + 1" by (simp only: powi2_less_iff)
  then have j0: "0 \<le> j" by simp
  define x where "x = of_int m * (2::real) powi k"
  have ax: "\<bar>x\<bar> = \<bar>real_of_int m\<bar> * 2 powi k" by (simp add: x_def abs_mult)
  have lo: "2 powi (j + k) \<le> \<bar>x\<bar>"
    unfolding ax powi2_add [symmetric] using b(1) by (intro mult_right_mono) simp_all
  have hi: "\<bar>x\<bar> < 2 powi (j + k + 1)"
  proof -
    have "\<bar>x\<bar> < 2 powi (j + 1) * 2 powi k"
      unfolding ax using b(2) by (intro mult_strict_right_mono) simp_all
    also have "\<dots> = 2 powi (j + k + 1)" by (simp add: powi2_add algebra_simps)
    finally show ?thesis .
  qed
  define n where "n = nat (52 - j)"
  have e: "k - (j + k - 52) = int n" using j53 by (simp add: n_def)
  have "2 powi k / (2::real) powi (j + k - 52) = 2 powi (k - (j + k - 52))"
    by (rule power_int_diff [symmetric]) simp
  also have "\<dots> = 2 ^ n" by (simp only: e power_int_of_nat)
  finally have r: "2 powi k / (2::real) powi (j + k - 52) = 2 ^ n" .
  have "x / 2 powi (j + k - 52) = of_int m * (2 powi k / 2 powi (j + k - 52))"
    by (simp add: x_def)
  also have "\<dots> = of_int (m * 2 ^ n)" by (simp only: r) simp
  finally have xq: "x / 2 powi (j + k - 52) = of_int (m * 2 ^ n)" .
  have "fl x = of_int (round_even (x / 2 powi (j + k - 52))) * 2 powi (j + k - 52)"
    using lo hi by (rule fl_eval)
  also have "\<dots> = x / 2 powi (j + k - 52) * 2 powi (j + k - 52)"
    by (simp only: xq round_even_int)
  also have "\<dots> = x" by simp
  finally show ?thesis by (simp add: x_def)
qed

lemma fl_int: "\<bar>n\<bar> < 2 ^ 53 \<Longrightarrow> fl (of_int n) = of_int n"
  using fl_dyadic [of n 0] by simp

lemma fl_ratio: "\<bar>m\<bar> < 2 ^ 53 \<Longrightarrow> fl (of_int m / 2 ^ k) = of_int m / 2 ^ k"
  using fl_dyadic [of m "- int k"] by (simp add: power_int_minus field_simps)

lemma fl_half: "fl (x / 2) = fl x / 2"
proof (cases "x = 0")
  case True
  then show ?thesis by simp
next
  case False
  define e where "e = binade x"
  define q :: real where "q = 2 powi (e - 1 - 52)"
  define r :: real where "r = of_int (round_even (x / (2 * q)))"
  from binade_bounds [OF False] have b: "2 powi e \<le> \<bar>x\<bar>" "\<bar>x\<bar> < 2 powi (e + 1)"
    by (simp_all add: e_def)
  have p1: "(2::real) powi e = 2 * 2 powi (e - 1)" and p2: "(2::real) powi (e + 1) = 2 * 2 powi e"
    and p3: "(2::real) powi (e - 52) = 2 * q"
    using power_int_add_1 [of "2::real" "e - 1"] power_int_add_1 [of "2::real" e]
      power_int_add_1 [of "2::real" "e - 1 - 52"]
    by (simp_all add: algebra_simps q_def)
  have lo: "2 powi (e - 1) \<le> \<bar>x / 2\<bar>" using b(1) p1 by simp
  have hi: "\<bar>x / 2\<bar> < 2 powi (e - 1 + 1)" using b(2) p2 by simp
  have "fl (x / 2) = of_int (round_even (x / 2 / 2 powi (e - 1 - 52))) * 2 powi (e - 1 - 52)"
    using lo hi by (rule fl_eval)
  then have 1: "fl (x / 2) = r * q" by (simp add: q_def r_def)
  have "fl x = of_int (round_even (x / 2 powi (e - 52))) * 2 powi (e - 52)"
    using False by (simp add: fl_def e_def)
  then have 2: "fl x = r * (2 * q)" by (simp only: p3 r_def)
  show ?thesis by (simp add: 1 2)
qed

lemma round_even_bound:
  assumes "\<bar>y\<bar> < of_int N" shows "\<bar>round_even y\<bar> \<le> N"
proof -
  have "\<bar>real_of_int (round_even y)\<bar> \<le> \<bar>y\<bar> + 1 / 2"
    using round_even_error [of y] by linarith
  with assms have "\<bar>real_of_int (round_even y)\<bar> < of_int N + 1 / 2" by linarith
  then have "real_of_int \<bar>round_even y\<bar> < real_of_int (N + 1)" by simp
  then have "\<bar>round_even y\<bar> < N + 1" by (simp only: of_int_less_iff)
  then show ?thesis by simp
qed

lemma fl_idem [simp]: "fl (fl x) = fl x"
proof (cases "x = 0")
  case True
  then show ?thesis by simp
next
  case False
  define e where "e = binade x"
  define q :: real where "q = 2 powi (e - 52)"
  define r where "r = round_even (x / q)"
  have q: "0 < q" by (simp add: q_def)
  have f: "fl x = of_int r * 2 powi (e - 52)"
    using False by (simp add: fl_def e_def q_def r_def)
  from binade_bounds [OF False] have "\<bar>x\<bar> < 2 powi (e + 1)" by (simp add: e_def)
  also have "(2::real) powi (e + 1) = 2 ^ 53 * q"
  proof -
    have "53 + (e - 52) = e + 1" by simp
    with powi2_add [of 53 "e - 52"] have "(2::real) powi 53 * 2 powi (e - 52) = 2 powi (e + 1)"
      by (simp only:)
    then show ?thesis by (simp add: q_def)
  qed
  finally have "\<bar>x / q\<bar> < 2 ^ 53" using q by (simp add: pos_divide_less_eq)
  then have "\<bar>x / q\<bar> < of_int (2 ^ 53)" by simp
  then have rb: "\<bar>r\<bar> \<le> 2 ^ 53" unfolding r_def by (rule round_even_bound)
  show ?thesis
  proof (cases "\<bar>r\<bar> < 2 ^ 53")
    case True
    then show ?thesis unfolding f by (rule fl_dyadic)
  next
    case False
    with rb have "\<bar>r\<bar> = 2 ^ 53" by simp
    then have "r = 2 ^ 53 \<or> r = - (2 ^ 53)" by linarith
    then have r2: "r = 2 * (r div 2)" and h: "\<bar>r div 2\<bar> < 2 ^ 53" by auto
    have "of_int r * (2::real) powi (e - 52) = of_int (r div 2) * (2 * 2 powi (e - 52))"
      by (subst r2) simp
    also have "2 * (2::real) powi (e - 52) = 2 powi (e - 52 + 1)"
      using power_int_add_1 [of "2::real" "e - 52"] by (simp only: mult.commute) simp
    finally have g: "of_int r * (2::real) powi (e - 52) = of_int (r div 2) * 2 powi (e - 52 + 1)" .
    show ?thesis unfolding f g using h by (rule fl_dyadic)
  qed
qed

text \<open>The literal \<^verbatim>\<open>0.72\<close> and the estimate at 44100 samples a second.\<close>

lemma EDGE_literal: "EDGE = fl (72 / 100)"
proof -
  have lo: "2 powi (- 1) \<le> \<bar>72 / 100 :: real\<bar>" and hi: "\<bar>72 / 100 :: real\<bar> < 2 powi (- 1 + 1)"
    by (simp_all add: power_int_minus)
  have q: "(2::real) powi (- 1 - 52) = 1 / 2 ^ 53" by (simp add: power_int_minus field_simps)
  have "round_even (72 / 100 / (1 / 2 ^ 53)) = 6485183463413514"
    by (rule round_even_unique) simp
  with fl_eval [OF lo hi] show ?thesis by (simp add: q EDGE_def)
qed

lemma float_of_int_exact: "\<bar>n\<bar> < 2 ^ 53 \<Longrightarrow> float_of_int n = of_int n"
  by (simp add: float_of_int_def fl_int)

lemma fl_numeral_196 [simp]: "fl 196 = 196"
  using fl_int [of 196] by simp

lemma seed_exact:
  assumes "225 dvd rate t" and "\<bar>rate t\<bar> < 2 ^ 53"
  shows "seed t = real_of_int (rate t) / 225"
proof -
  from assms(1) obtain k where k: "rate t = 225 * k" by (auto simp add: dvd_def)
  with assms(2) have "\<bar>k\<bar> < 2 ^ 53" by simp
  then have "fl (of_int k) = of_int k" by (rule fl_int)
  with assms(2) show ?thesis
    by (simp add: seed_def float_of_int_exact BPS_def k)
qed

lemma seed_pos: "0 < rate t \<Longrightarrow> 0 < seed t"
  unfolding seed_def float_of_int_def BPS_def
  by (intro fl_pos divide_pos_pos) simp_all

section \<open>The record assembler\<close>

lemma ceil8_step: "i < n \<Longrightarrow> (n - i + 7) div 8 = Suc ((n - (i + 8) + 7) div 8)" for i n :: nat
proof (cases "i + 8 \<le> n")
  case True
  then have "n - i + 7 = (n - (i + 8) + 7) + 8" by simp
  then show ?thesis by (simp only: div_add_self2)
next
  case False
  assume "i < n"
  with False have "8 * 1 \<le> n - i + 7" and "n - i + 7 < 8 * Suc 1" and z: "n - (i + 8) = 0"
    by simp_all
  then have "(n - i + 7) div 8 = 1" by (intro div_nat_eqI)
  then show ?thesis by (simp add: z)
qed

lemma int_base2_rev: "g \<noteq> [] \<Longrightarrow> int_base2 (rev g) = Inr (horner_sum of_bool 2 g)"
  by (simp add: int_base2_def horner_sum_foldr foldl_conv_foldr add.commute)

lemma slice_nonempty: "i < length bs \<Longrightarrow> i < j \<Longrightarrow> slice bs i j \<noteq> []"
  by (simp add: slice_def)

lemma length_slice: "length (slice xs i j) = min j (length xs) - i"
  by (simp add: slice_def min.commute)

lemma nth_slice: "i + n < j \<Longrightarrow> i + n < length xs \<Longrightarrow> slice xs i j ! n = xs ! (i + n)"
  by (simp add: slice_def)

lemma octets_loop_eq:
  "octets_loop bs i =
     Inr (map (\<lambda>k. group_value bs (i + 8 * k)) [0..<(length bs - i + 7) div 8])"
proof (induction bs i rule: octets_loop.induct)
  case (1 bs i)
  show ?case
  proof (cases "i < length bs")
    case False
    then show ?thesis by (simp add: octets_loop.simps [of bs i])
  next
    case True
    have v: "int_base2 (rev (slice bs i (i + 8))) = Inr (group_value bs i)"
      using True by (simp add: int_base2_rev slice_nonempty group_value_def)
    have n: "(length bs - i + 7) div 8 = Suc ((length bs - (i + 8) + 7) div 8)"
      using True by (rule ceil8_step)
    have ih: "octets_loop bs (i + 8) =
        Inr (map (\<lambda>k. group_value bs (i + 8 + 8 * k)) [0..<(length bs - (i + 8) + 7) div 8])"
      using "1.IH" [OF True v] .
    have "octets_loop bs i = Inr (group_value bs i #
        map (\<lambda>k. group_value bs (i + 8 + 8 * k)) [0..<(length bs - (i + 8) + 7) div 8])"
      by (subst octets_loop.simps) (simp only: True v ih if_True sum.case)
    also have "\<dots> = Inr (map (\<lambda>k. group_value bs (i + 8 * k)) [0..<(length bs - i + 7) div 8])"
      unfolding n map_upt_Suc by (simp add: add.assoc)
    finally show ?thesis .
  qed
qed

lemma horner_less: "(horner_sum of_bool 2 (g :: bool list) :: nat) < 2 ^ length g"
  by (induction g) auto

lemma group_value_less: "group_value bs i < 256"
proof -
  have "length (slice bs i (i + 8)) \<le> 8" by (simp add: length_slice)
  then have "(2::nat) ^ length (slice bs i (i + 8)) \<le> 2 ^ 8"
    by (intro power_increasing) simp_all
  with horner_less [of "slice bs i (i + 8)"] show ?thesis
    by (simp add: group_value_def)
qed

lemma assemble_eq:
  "assemble bs = Inr (map (\<lambda>k. of_nat (group_value bs (8 * k))) [0..<(length bs + 7) div 8])"
  by (simp add: assemble_def octets_loop_eq bytearray_def group_value_less comp_def)

lemma bit_group_value:
  "bit (of_nat (group_value bs (8 * k)) :: byte) j
     \<longleftrightarrow> j < 8 \<and> 8 * k + j < length bs \<and> bs ! (8 * k + j)"
  by (auto simp add: bit_simps group_value_def length_slice nth_slice)

lemma assemble_length:
  "assemble bs = Inr octets \<Longrightarrow> length octets = (length bs + 7) div 8"
  by (auto simp add: assemble_eq)

lemma report_record_Inr: "octets \<noteq> [] \<Longrightarrow> \<exists>line. report_record octets = Inr line"
  by (simp add: report_record_def Let_def)

lemma add_record_short: "length (bits s) < 48 \<Longrightarrow> add_record s nbr = Inr (s\<lparr>bits := []\<rparr>)"
  by (simp add: add_record_def)

lemma strip_zero_length:
  "6 \<le> length octets \<Longrightarrow>
     5 \<le> length (strip_zero octets) \<and> length (strip_zero octets) \<le> length octets"
  unfolding strip_zero_def by (cases "last octets = 0") simp_all

lemma add_record_long:
  assumes "48 \<le> length (bits s)"
  shows "\<exists>octets line. assemble (bits s) = Inr octets
     \<and> report_record (strip_zero octets) = Inr line
     \<and> 5 \<le> length (strip_zero octets)
     \<and> length (strip_zero octets) \<le> (length (bits s) + 7) div 8
     \<and> add_record s nbr = Inr (s\<lparr>stdout := stdout s @ [''RECORD '' @ line],
                                  records := records s @ [strip_zero octets], bits := []\<rparr>)"
proof -
  obtain octets where a: "assemble (bits s) = Inr octets" by (simp add: assemble_eq)
  then have len: "length octets = (length (bits s) + 7) div 8" by (rule assemble_length)
  with assms have six: "6 \<le> length octets" by simp
  then have ne: "octets \<noteq> []" by auto
  have l5: "5 \<le> length (strip_zero octets)" and le: "length (strip_zero octets) \<le> length octets"
    using strip_zero_length [OF six] by simp_all
  then have "strip_zero octets \<noteq> []" by auto
  then obtain line where r: "report_record (strip_zero octets) = Inr line"
    using report_record_Inr by blast
  have nl: "\<not> length (bits s) < 48" using assms by simp
  have "add_record s nbr = Inr (s\<lparr>stdout := stdout s @ [''RECORD '' @ line],
                                  records := records s @ [strip_zero octets], bits := []\<rparr>)"
    unfolding add_record_def Let_def
    by (simp only: nl if_False a sum.case ne strip_zero_def [symmetric] r)
  with a r l5 le len show ?thesis by (intro exI [of _ octets] exI [of _ line]) simp
qed

lemma add_record_cases:
  "(length (bits s) < 48 \<and> add_record s nbr = Inr (s\<lparr>bits := []\<rparr>))
   \<or> (48 \<le> length (bits s) \<and> (\<exists>r line. 5 \<le> length r \<and> length r \<le> (length (bits s) + 7) div 8
         \<and> report_record r = Inr line
         \<and> add_record s nbr = Inr (s\<lparr>stdout := stdout s @ [''RECORD '' @ line],
                                      records := records s @ [r], bits := []\<rparr>)))"
proof (cases "length (bits s) < 48")
  case True
  then show ?thesis by (simp add: add_record_short)
next
  case False
  then have h: "48 \<le> length (bits s)" by simp
  from add_record_long [OF h, of nbr] obtain octets line where
    "report_record (strip_zero octets) = Inr line" "5 \<le> length (strip_zero octets)"
    "length (strip_zero octets) \<le> (length (bits s) + 7) div 8"
    "add_record s nbr = Inr (s\<lparr>stdout := stdout s @ [''RECORD '' @ line],
                                  records := records s @ [strip_zero octets], bits := []\<rparr>)"
    by blast
  with h show ?thesis
    by (intro disjI2 conjI exI [of _ "strip_zero octets"] exI [of _ line])
qed

lemma add_record_fields:
  "add_record s nbr = Inr s' \<Longrightarrow> tbit s' = tbit s \<and> nbr_priv s' = nbr_priv s \<and> bits s' = []"
  using add_record_cases [of s nbr] by auto

text \<open>
  C1, as the code has it. A buffer of \<open>N \<ge> 48\<close> bits is assembled without an exception
  into \<open>\<lceil>N / 8\<rceil>\<close> bytes, that is \<open>(N + 7) div 8\<close>. Bit \<open>j\<close> of byte \<open>k\<close> is bit \<open>8k + j\<close> of
  the buffer, so the first bit of each group is the low-order bit; the \<open>N mod 8\<close> bits left
  over are not dropped, they are the low-order bits of one more byte whose other bits
  are 0. The record appended is this byte sequence, less its last byte when that is 0.
\<close>

theorem assemble_packs_every_bit:
  assumes "48 \<le> length (bits s)"
  shows "\<exists>octets line. assemble (bits s) = Inr octets
     \<and> length octets = (length (bits s) + 7) div 8
     \<and> (\<forall>k j. k < length octets \<longrightarrow> j < 8 \<longrightarrow>
          (bit (octets ! k) j \<longleftrightarrow> 8 * k + j < length (bits s) \<and> bits s ! (8 * k + j)))
     \<and> add_record s nbr = Inr (s\<lparr>stdout := stdout s @ [''RECORD '' @ line],
           records := records s @ [if last octets = 0 then butlast octets else octets],
           bits := []\<rparr>)"
proof -
  from add_record_long [OF assms, of nbr] obtain octets line where
    a: "assemble (bits s) = Inr octets" and
    r: "add_record s nbr = Inr (s\<lparr>stdout := stdout s @ [''RECORD '' @ line],
                                  records := records s @ [strip_zero octets], bits := []\<rparr>)"
    by blast
  have len: "length octets = (length (bits s) + 7) div 8"
    using a by (rule assemble_length)
  have o: "octets = map (\<lambda>k. of_nat (group_value (bits s) (8 * k)))
                      [0..<(length (bits s) + 7) div 8]"
    using a by (simp add: assemble_eq)
  have b: "bit (octets ! k) j \<longleftrightarrow> 8 * k + j < length (bits s) \<and> bits s ! (8 * k + j)"
    if "k < length octets" "j < 8" for k j
  proof -
    from that len have "octets ! k = of_nat (group_value (bits s) (8 * k))"
      by (subst o) simp
    with that show ?thesis by (simp add: bit_group_value)
  qed
  from a len b r show ?thesis
    by (intro exI [of _ octets] exI [of _ line]) (simp add: strip_zero_def)
qed

theorem assemble_packs_every_bit_witness:
  "48 \<le> length (bits (tape0\<lparr>bits := bits49\<rparr>))
   \<and> (\<exists>octets. assemble bits49 = Inr octets \<and> length octets = 7 \<and> bit (octets ! 6) 0)"
proof -
  have h: "48 \<le> length (bits (tape0\<lparr>bits := bits49\<rparr>))" by (simp add: bits49_def)
  from assemble_packs_every_bit [OF h, of 0] obtain octets where
    a: "assemble bits49 = Inr octets" and l: "length octets = (length bits49 + 7) div 8" and
    b: "\<forall>k j. k < length octets \<longrightarrow> j < 8 \<longrightarrow>
          (bit (octets ! k) j \<longleftrightarrow> 8 * k + j < length bits49 \<and> bits49 ! (8 * k + j))"
    by auto
  from l have l7: "length octets = 7" by (simp add: bits49_def)
  from b l7 have "bit (octets ! 6) 0 \<longleftrightarrow> 8 * 6 + 0 < length bits49 \<and> bits49 ! (8 * 6 + 0)"
    by simp
  then have "bit (octets ! 6) 0" by (simp add: bits49_def nth_append)
  with h a l7 show ?thesis by blast
qed

text \<open>
  C1 as stated fails on 49 bits, 48 zeros and a one: the code assembles seven bytes, not
  \<open>\<lfloor>49 / 8\<rfloor> = 6\<close>, and the seventh byte holds the bit left over.
\<close>

theorem leftover_bits_counterexample:
  "assemble bits49 = Inr [0, 0, 0, 0, 0, 0, 1] \<and> length bits49 div 8 = 6"
  unfolding bits49_def by code_simp

text \<open>
  C2. \<^verbatim>\<open>add_record\<close> never raises and always clears the buffer; it appends a record
  exactly when the buffer holds at least 48 bits. 47 bits leave the record list as it
  is; 48 bits append one record of at most 6 bytes.
\<close>

theorem add_record_iff_48_bits:
  "\<exists>s'. add_record s nbr = Inr s' \<and> bits s' = []
     \<and> ((\<exists>r. records s' = records s @ [r]) \<longleftrightarrow> 48 \<le> length (bits s))
     \<and> (length (bits s) < 48 \<longrightarrow> records s' = records s)
     \<and> (length (bits s) = 47 \<longrightarrow> records s' = records s)
     \<and> (length (bits s) = 48 \<longrightarrow> (\<exists>r. records s' = records s @ [r] \<and> length r \<le> 6))"
  using add_record_cases [of s nbr]
proof (elim disjE conjE exE)
  assume "length (bits s) < 48" "add_record s nbr = Inr (s\<lparr>bits := []\<rparr>)"
  then show ?thesis by (intro exI [of _ "s\<lparr>bits := []\<rparr>"]) simp
next
  fix r line
  assume h: "48 \<le> length (bits s)" "length r \<le> (length (bits s) + 7) div 8"
    "add_record s nbr = Inr (s\<lparr>stdout := stdout s @ [''RECORD '' @ line],
                                      records := records s @ [r], bits := []\<rparr>)"
  then show ?thesis
    by (intro exI [of _ "s\<lparr>stdout := stdout s @ [''RECORD '' @ line],
                                      records := records s @ [r], bits := []\<rparr>"]) auto
qed

theorem add_record_iff_48_bits_witness:
  "(length (bits (tape0\<lparr>bits := replicate 47 True\<rparr>)) = 47
     \<and> (\<exists>s'. add_record (tape0\<lparr>bits := replicate 47 True\<rparr>) 0 = Inr s' \<and> records s' = []))
   \<and> (length (bits (tape0\<lparr>bits := replicate 48 True\<rparr>)) = 48
     \<and> (\<exists>s' r. add_record (tape0\<lparr>bits := replicate 48 True\<rparr>) 0 = Inr s' \<and> records s' = [r]
            \<and> length r \<le> 6))"
  using add_record_iff_48_bits [of "tape0\<lparr>bits := replicate 47 True\<rparr>" 0]
    add_record_iff_48_bits [of "tape0\<lparr>bits := replicate 48 True\<rparr>" 0]
  by (simp add: tape0_def) blast

section \<open>Records of a whole analysis\<close>

lemma add_record_appends:
  "add_record s nbr = Inr s' \<Longrightarrow>
     \<exists>new. records s' = records s @ new
       \<and> (\<forall>r \<in> set new. 5 \<le> length r \<and> (\<exists>line. report_record r = Inr line))"
  using add_record_cases [of s nbr]
proof (elim disjE conjE exE)
  assume "add_record s nbr = Inr s'" "add_record s nbr = Inr (s\<lparr>bits := []\<rparr>)"
  then show ?thesis by (intro exI [of _ "[]"]) auto
next
  fix r line
  assume "add_record s nbr = Inr s'" "5 \<le> length r" "report_record r = Inr line"
    "add_record s nbr = Inr (s\<lparr>stdout := stdout s @ [''RECORD '' @ line],
                                      records := records s @ [r], bits := []\<rparr>)"
  then show ?thesis by (intro exI [of _ "[r]"]) auto
qed

lemma analyze_step_appends:
  assumes "analyze_step t s e = Inr s'"
  shows "\<exists>new. records s' = records s @ new
       \<and> (\<forall>r \<in> set new. 5 \<le> length r \<and> (\<exists>line. report_record r = Inr line))"
proof (cases "real_of_int (fst e - nbr_priv s) > 4 * tbit s")
  case True
  with assms obtain s1 where a: "add_record s (fst e) = Inr s1"
    and s': "records s' = records s1"
    by (auto simp add: analyze_step_def Let_def split: sum.splits if_splits)
  from add_record_appends [OF a] s' show ?thesis by simp
next
  case False
  with assms have "records s' = records s"
    by (auto simp add: analyze_step_def Let_def split: if_splits)
  then show ?thesis by (intro exI [of _ "[]"]) simp
qed

lemma analyze_loop_appends:
  "analyze_loop t s es = Inr s' \<Longrightarrow>
     \<exists>new. records s' = records s @ new
       \<and> (\<forall>r \<in> set new. 5 \<le> length r \<and> (\<exists>line. report_record r = Inr line))"
proof (induction es arbitrary: s)
  case Nil
  then show ?case by (intro exI [of _ "[]"]) simp
next
  case (Cons e es)
  then obtain s1 where 1: "analyze_step t s e = Inr s1" and 2: "analyze_loop t s1 es = Inr s'"
    by (auto split: sum.splits)
  from analyze_step_appends [OF 1] obtain n1 where
    n1: "records s1 = records s @ n1"
      "\<forall>r \<in> set n1. 5 \<le> length r \<and> (\<exists>line. report_record r = Inr line)"
    by blast
  from Cons.IH [OF 2] obtain n2 where
    n2: "records s' = records s1 @ n2"
      "\<forall>r \<in> set n2. 5 \<le> length r \<and> (\<exists>line. report_record r = Inr line)"
    by blast
  from n1 n2 show ?case by (intro exI [of _ "n1 @ n2"]) auto
qed

lemma seed_track0: "seed track0 = 196"
  using seed_exact [of track0] by (simp add: track0_def)

lemma fl_EDGE_196: "fl (EDGE * 196) < 196" and fl_EDGE_196_lower: "32 < fl (EDGE * 196)"
  using fl_upper [of "EDGE * 196"] fl_lower [of "EDGE * 196"] by (simp_all add: EDGE_def)

lemma data_step:
  "tbit s = 196 \<Longrightarrow> nbr - nbr_priv s = 196 \<Longrightarrow>
   analyze_step track0 s (nbr, sg) = Inr (s\<lparr>nbr_priv := nbr, bits := bits s @ [\<not> 0 < sg]\<rparr>)"
  using fl_EDGE_196 by (simp add: analyze_step_def AVG_def Let_def float_of_int_exact)

lemma run48:
  "\<exists>bs. length bs = 48 \<and>
     analyze_loop track0 tape0 edges48 = Inr (tape0\<lparr>nbr_priv := 9408, bits := bs\<rparr>)"
  by (simp add: edges48_def upt_conv_Cons data_step tape0_def)

text \<open>
  C10. Every record that an analysis appends to the record list has at least 5 bytes,
  so it is not empty and \<^verbatim>\<open>report_record\<close> returns its summary for it without an
  \<^verbatim>\<open>IndexError\<close>.
\<close>

theorem appended_records_have_5_bytes:
  assumes "analyze_edges t s es = Inr s'"
  shows "\<exists>new. records s' = records s @ new
       \<and> (\<forall>r \<in> set new. 5 \<le> length r \<and> r \<noteq> [] \<and> (\<exists>line. report_record r = Inr line))"
proof -
  from assms obtain s1 where
    1: "analyze_loop t (s\<lparr>tbit := seed t, bits := [], nbr_priv := 0\<rparr>) (fst es) = Inr s1"
    and 2: "add_record s1 (if fst es = [] then 0 else fst (last (fst es))) = Inr s'"
    by (auto simp add: analyze_edges_def Let_def split: sum.splits option.splits)
  from analyze_loop_appends [OF 1] obtain n1 where
    n1: "records s1 = records s @ n1"
      "\<forall>r \<in> set n1. 5 \<le> length r \<and> (\<exists>line. report_record r = Inr line)"
    by auto
  from add_record_appends [OF 2] obtain n2 where
    n2: "records s' = records s1 @ n2"
      "\<forall>r \<in> set n2. 5 \<le> length r \<and> (\<exists>line. report_record r = Inr line)"
    by blast
  from n1 n2 show ?thesis by (intro exI [of _ "n1 @ n2"]) auto
qed

theorem appended_records_have_5_bytes_witness:
  "\<exists>s' r. analyze_edges track0 tape0 (edges48, None) = Inr s' \<and> records s' = [r]
      \<and> 5 \<le> length r \<and> (\<exists>line. report_record r = Inr line)"
proof -
  from run48 obtain bs where bs: "length bs = 48"
    "analyze_loop track0 tape0 edges48 = Inr (tape0\<lparr>nbr_priv := 9408, bits := bs\<rparr>)"
    by blast
  have "48 \<le> length (bits (tape0\<lparr>nbr_priv := 9408, bits := bs\<rparr>))" using bs by simp
  from add_record_long [OF this] obtain r s' where
    a: "add_record (tape0\<lparr>nbr_priv := 9408, bits := bs\<rparr>) (fst (last edges48)) = Inr s'"
    and r: "records s' = [r]"
    by (fastforce simp add: tape0_def)
  have t0: "tape0\<lparr>tbit := seed track0, bits := [], nbr_priv := 0\<rparr> = tape0"
    by (simp add: tape0_def seed_track0)
  have ne: "edges48 \<noteq> []" by (simp add: edges48_def)
  have e: "analyze_edges track0 tape0 (edges48, None) = Inr s'"
    by (simp add: analyze_edges_def t0 bs a ne)
  from appended_records_have_5_bytes [OF e] r e show ?thesis
    by (auto simp add: tape0_def)
qed

section \<open>The tape container writer\<close>

lemma of_nat_mod_256: "(of_nat (m mod 256) :: byte) = of_nat m"
  by (simp add: word_of_nat_eq_iff take_bit_eq_mod)

lemma pack_L_le32: "n < 2 ^ 32 \<Longrightarrow> pack_L n = Inr (le32 n)"
  by (simp add: pack_L_def le32_def upt_conv_Cons of_nat_mod_256)

lemma split256: "(m::nat) mod 256 + 256 * (m div 256) = m"
  by simp

lemma le_value_le32:
  assumes "n < 2 ^ 32" shows "le_value (le32 n) = n"
proof -
  have 3: "n div 16777216 mod 256 = n div 16777216"
    using assms by (simp add: less_mult_imp_div_less)
  have d2: "n div 65536 div 256 = n div 16777216" and d1: "n div 256 div 256 = n div 65536"
    by (simp_all add: div_mult2_eq [symmetric])
  have "le_value (le32 n) = n mod 256 + 256 * (n div 256 mod 256
          + 256 * (n div 65536 mod 256 + 256 * (n div 16777216 mod 256)))"
    by (simp add: le_value_def le32_def upt_conv_Cons unat_of_nat)
  also have "\<dots> = n mod 256 + 256 * (n div 256 mod 256
          + 256 * (n div 65536 mod 256 + 256 * (n div 65536 div 256)))"
    by (simp only: 3 d2)
  also have "\<dots> = n mod 256 + 256 * (n div 256 mod 256 + 256 * (n div 256 div 256))"
    by (simp only: split256 d1)
  also have "\<dots> = n"
    by (simp only: split256)
  finally show ?thesis .
qed

lemma tap_loop_eq:
  "\<forall>r \<in> set recs. length r < 2 ^ 32 \<Longrightarrow>
     tap_loop tap recs = Inr (tap @ concat (map tap_block recs))"
  by (induction recs arbitrary: tap) (simp_all add: pack_L_le32 tap_block_def Let_def)

text \<open>A record of \<open>2^32\<close> bytes or more makes \<^verbatim>\<open>struct.pack\<close> raise.\<close>

lemma tap_loop_too_long:
  "\<exists>r \<in> set recs. \<not> length r < 2 ^ 32 \<Longrightarrow> tap_loop tap recs = Inl StructError"
proof (induction recs arbitrary: tap)
  case Nil
  then show ?case by simp
next
  case (Cons r recs)
  show ?case
  proof (cases "length r < 2 ^ 32")
    case True
    with Cons.prems have "\<exists>r \<in> set recs. \<not> length r < 2 ^ 32" by auto
    from Cons.IH [OF this] True show ?thesis by (simp add: pack_L_le32 Let_def)
  next
    case False
    then show ?thesis by (simp add: pack_L_def)
  qed
qed

text \<open>
  C7. When every record is shorter than \<open>2^32\<close> bytes, which a four-byte length requires,
  the file written is, for each record in order, its length in four bytes low byte
  first, its bytes, one zero byte exactly when the length is odd, and the same four bytes
  again; then the four bytes \<open>FF FF FF FF\<close>, and nothing else.
\<close>

theorem tapfile_layout:
  assumes "\<forall>r \<in> set (records s). length r < 2 ^ 32"
  shows "write_tapfile s = Inr (concat (map tap_block (records s)) @ [0xFF, 0xFF, 0xFF, 0xFF])
     \<and> (\<forall>r \<in> set (records s).
           length (le32 (length r)) = 4 \<and> le_value (le32 (length r)) = length r)"
  using assms by (simp add: write_tapfile_def tap_loop_eq le_value_le32) (simp add: le32_def)

theorem tapfile_layout_witness:
  "length [1, 2, 3 :: byte] < 2 ^ 32 \<and> length [4, 5 :: byte] < 2 ^ 32
   \<and> write_tapfile (tape0\<lparr>records := [[1, 2, 3], [4, 5]]\<rparr>) =
       Inr [3, 0, 0, 0, 1, 2, 3, 0, 3, 0, 0, 0,
            2, 0, 0, 0, 4, 5, 2, 0, 0, 0,
            0xFF, 0xFF, 0xFF, 0xFF]"
proof -
  have h: "\<forall>r \<in> set (records (tape0\<lparr>records := [[1, 2, 3], [4, 5]]\<rparr>)). length r < 2 ^ 32"
    by simp
  from tapfile_layout [OF h] show ?thesis
    by (simp add: tap_block_def le32_def upt_conv_Cons)
qed

section \<open>The edge detector\<close>

lemma track_loop_unfold:
  "0 < step \<Longrightarrow> nbr + 1 < length sb \<Longrightarrow>
   track_loop sb step nbr sign prev =
     (let sg = hysteresis sign (sample_at sb nbr);
          rest = track_loop sb step (nbr + step) sg sg
      in if sg \<noteq> prev then ((int nbr, sg) # fst rest, snd rest) else rest)"
  by (subst track_loop.simps) (simp add: Let_def hysteresis_def sample_at_def)

lemma track_loop_spec_aux:
  "prev = sign \<Longrightarrow> track_loop sb step nbr sign prev = edge_spec sb step nbr sign prev"
proof (induction sb step nbr sign prev rule: track_loop.induct)
  case (1 sb step nbr sign prev)
  show ?case
  proof (cases "0 < step \<and> nbr + 1 < length sb")
    case False
    then show ?thesis
      by (subst track_loop.simps, subst edge_spec.simps) auto
  next
    case True
    then have g: "step \<noteq> 0" "\<not> length sb \<le> nbr" "\<not> length sb \<le> nbr + 1" by simp_all
    define sg where "sg = hysteresis sign (sample_at sb nbr)"
    have ih: "track_loop sb step (nbr + step) sg sg = edge_spec sb step (nbr + step) sg sg"
      unfolding sg_def hysteresis_def sample_at_def Let_def
      by (rule "1.IH" [OF g refl refl refl refl])
    show ?thesis
      using True "1.prems" ih
      by (subst edge_spec.simps) (auto simp add: track_loop_unfold Let_def sg_def [symmetric])
  qed
qed

lemma track_loop_spec: "track_loop sb step nbr 0 0 = edge_spec sb step nbr 0 0"
  by (rule track_loop_spec_aux) simp

lemma track_loop_events:
  "prev = sign \<Longrightarrow> (nbr', sg) \<in> set (fst (track_loop sb step nbr sign prev)) \<Longrightarrow>
     int nbr \<le> nbr' \<and> nat nbr' + 1 < length sb
     \<and> (sg = 1 \<and> sample_at sb (nat nbr') > THRESHOLD
          \<or> sg = - 1 \<and> sample_at sb (nat nbr') < - THRESHOLD)"
proof (induction sb step nbr sign prev rule: track_loop.induct)
  case (1 sb step nbr sign prev)
  show ?case
  proof (cases "0 < step \<and> nbr + 1 < length sb")
    case False
    with "1.prems" show ?thesis
      by (subst (asm) track_loop.simps) (auto split: if_splits)
  next
    case True
    then have g: "step \<noteq> 0" "\<not> length sb \<le> nbr" "\<not> length sb \<le> nbr + 1" by simp_all
    define sg' where "sg' = (if THRESHOLD < (if 32767 < uint (sb ! nbr) + uint (sb ! (nbr + 1)) * 256
                          then uint (sb ! nbr) + uint (sb ! (nbr + 1)) * 256 - 65536
                          else uint (sb ! nbr) + uint (sb ! (nbr + 1)) * 256)
        then 1
        else if (if 32767 < uint (sb ! nbr) + uint (sb ! (nbr + 1)) * 256
                 then uint (sb ! nbr) + uint (sb ! (nbr + 1)) * 256 - 65536
                 else uint (sb ! nbr) + uint (sb ! (nbr + 1)) * 256) < - THRESHOLD
        then - 1 else sign)"
    have sg'_h: "sg' = hysteresis sign (sample_at sb nbr)"
      by (simp add: sg'_def hysteresis_def sample_at_def Let_def)
    have ih: "(nbr', sg) \<in> set (fst (track_loop sb step (nbr + step) sg' sg')) \<Longrightarrow>
       int (nbr + step) \<le> nbr' \<and> nat nbr' + 1 < length sb
     \<and> (sg = 1 \<and> sample_at sb (nat nbr') > THRESHOLD
          \<or> sg = - 1 \<and> sample_at sb (nat nbr') < - THRESHOLD)"
      unfolding sg'_def by (rule "1.IH" [OF g refl refl refl refl])
    from "1.prems" True consider
      (here) "nbr' = int nbr" "sg = sg'" "sg' \<noteq> sign"
      | (later) "(nbr', sg) \<in> set (fst (track_loop sb step (nbr + step) sg' sg'))"
      by (auto simp add: track_loop_unfold Let_def sg'_h [symmetric] split: if_splits)
    then show ?thesis
    proof cases
      case here
      with True show ?thesis
        by (auto simp add: sg'_h hysteresis_def split: if_splits)
    next
      case later
      from ih [OF later] show ?thesis by simp
    qed
  qed
qed

lemma track_loop_sorted:
  "sorted_wrt (<) (map fst (fst (track_loop sb step nbr sign prev)))"
proof (induction sb step nbr sign prev rule: track_loop.induct)
  case (1 sb step nbr sign prev)
  show ?case
  proof (cases "0 < step \<and> nbr + 1 < length sb")
    case False
    then show ?thesis
      by (subst track_loop.simps) auto
  next
    case True
    then have g: "step \<noteq> 0" "\<not> length sb \<le> nbr" "\<not> length sb \<le> nbr + 1" by simp_all
    define sg' where "sg' = (if THRESHOLD < (if 32767 < uint (sb ! nbr) + uint (sb ! (nbr + 1)) * 256
                          then uint (sb ! nbr) + uint (sb ! (nbr + 1)) * 256 - 65536
                          else uint (sb ! nbr) + uint (sb ! (nbr + 1)) * 256)
        then 1
        else if (if 32767 < uint (sb ! nbr) + uint (sb ! (nbr + 1)) * 256
                 then uint (sb ! nbr) + uint (sb ! (nbr + 1)) * 256 - 65536
                 else uint (sb ! nbr) + uint (sb ! (nbr + 1)) * 256) < - THRESHOLD
        then - 1 else sign)"
    have sg'_h: "sg' = hysteresis sign (sample_at sb nbr)"
      by (simp add: sg'_def hysteresis_def sample_at_def Let_def)
    have ih: "sorted_wrt (<) (map fst (fst (track_loop sb step (nbr + step) sg' sg')))"
      unfolding sg'_def by (rule "1.IH" [OF g refl refl refl])
    have lo: "int nbr < p" if "p \<in> set (map fst (fst (track_loop sb step (nbr + step) sg' sg')))" for p
    proof -
      from that obtain sg where "(p, sg) \<in> set (fst (track_loop sb step (nbr + step) sg' sg'))"
        by auto
      from track_loop_events [OF refl this] True show ?thesis by simp
    qed
    show ?thesis
      using True ih lo
      by (auto simp add: track_loop_unfold Let_def sg'_h [symmetric])
  qed
qed

lemma wav5_events: "track_iter wav5 = ([(0, 1), (4, - 1), (8, 1)], None)"
  unfolding wav5_def track_iter_def by code_simp

text \<open>
  C8. The positions of the events a track yields increase strictly. The generator of
  the code, which compares with the sign of the previous sample, yields what the
  generator of the specification yields, which compares with the sign of the event
  emitted last (0 before any event). Every event is yielded at a sample outside the
  threshold band, above it for the sign \<open>+1\<close> and below it for \<open>-1\<close>, so a sample inside
  the band yields nothing.
\<close>

theorem edge_detector_events:
  "sorted_wrt (<) (map fst (fst (track_iter t)))
   \<and> track_iter t = edge_spec (sound t) (span t) (offset t) 0 0
   \<and> (\<forall>e \<in> set (fst (track_iter t)).
         snd e = 1 \<and> THRESHOLD < sample_at (sound t) (nat (fst e))
         \<or> snd e = - 1 \<and> sample_at (sound t) (nat (fst e)) < - THRESHOLD)"
proof (intro conjI ballI)
  show "sorted_wrt (<) (map fst (fst (track_iter t)))"
    unfolding track_iter_def by (rule track_loop_sorted)
  show "track_iter t = edge_spec (sound t) (span t) (offset t) 0 0"
    unfolding track_iter_def by (rule track_loop_spec)
  fix e assume "e \<in> set (fst (track_iter t))"
  then have "(fst e, snd e) \<in> set (fst (track_loop (sound t) (span t) (offset t) 0 0))"
    by (simp add: track_iter_def)
  from track_loop_events [OF refl this]
  show "snd e = 1 \<and> THRESHOLD < sample_at (sound t) (nat (fst e))
         \<or> snd e = - 1 \<and> sample_at (sound t) (nat (fst e)) < - THRESHOLD"
    by simp
qed

theorem edge_detector_events_witness:
  "fst (track_iter wav5) = [(0, 1), (4, - 1), (8, 1)]
   \<and> edge_spec (sound wav5) (span wav5) (offset wav5) 0 0 = ([(0, 1), (4, - 1), (8, 1)], None)
   \<and> THRESHOLD < sample_at (sound wav5) 0
   \<and> sample_at (sound wav5) 4 < - THRESHOLD
   \<and> THRESHOLD < sample_at (sound wav5) 8"
proof -
  from edge_detector_events [of wav5]
  have 1: "track_iter wav5 = edge_spec (sound wav5) (span wav5) (offset wav5) 0 0"
    and 2: "\<forall>e \<in> set (fst (track_iter wav5)).
         snd e = 1 \<and> THRESHOLD < sample_at (sound wav5) (nat (fst e))
         \<or> snd e = - 1 \<and> sample_at (sound wav5) (nat (fst e)) < - THRESHOLD"
    by blast+
  from 1 have "edge_spec (sound wav5) (span wav5) (offset wav5) 0 0
      = ([(0, 1), (4, - 1), (8, 1)], None)"
    by (simp only: wav5_events)
  moreover from 2 have "\<forall>e \<in> set [(0, 1), (4, - 1), (8, 1) :: int \<times> int].
         snd e = 1 \<and> THRESHOLD < sample_at (sound wav5) (nat (fst e))
         \<or> snd e = - 1 \<and> sample_at (sound wav5) (nat (fst e)) < - THRESHOLD"
    by (simp only: wav5_events fst_conv)
  then have "THRESHOLD < sample_at (sound wav5) 0 \<and> sample_at (sound wav5) 4 < - THRESHOLD
      \<and> THRESHOLD < sample_at (sound wav5) 8"
    by simp
  ultimately show ?thesis by (simp only: wav5_events fst_conv simp_thms)
qed

section \<open>The bit synchronizer\<close>

lemma add_record_nbr: "add_record s a = add_record s b"
  by (simp add: add_record_def)

lemma analyze_edges_loop:
  "analyze_edges t s0 (es, err) =
     (case analyze_loop t (s0\<lparr>tbit := seed t, bits := [], nbr_priv := 0\<rparr>) es of
        Inl e \<Rightarrow> Inl e
      | Inr s1 \<Rightarrow> (case err of Some e \<Rightarrow> Inl e | None \<Rightarrow> add_record s1 0))"
  by (auto simp add: analyze_edges_def Let_def split: sum.splits option.splits
      intro: add_record_nbr)

text \<open>The rounded product \<^verbatim>\<open>EDGE * self.tbit\<close> lies between these bounds.\<close>

lemma fl_nonneg: "0 \<le> x \<Longrightarrow> 0 \<le> fl x"
proof -
  assume x: "0 \<le> x"
  have "x / 2 ^ 53 \<le> x" using x by (simp add: field_simps)
  with fl_lower [of x] x show ?thesis by simp
qed

lemma EDGE_bounds: "72 / 100 * (1 - 1 / 2 ^ 53) \<le> EDGE" "EDGE < 72 / 100" "0 < EDGE"
  by (simp_all add: EDGE_def)

lemma edge_product_upper:
  assumes "0 < x"
  shows "fl (EDGE * x) \<le> 72 / 100 * x * (1 + 1 / 2 ^ 53)"
proof -
  from assms EDGE_bounds have p: "0 < EDGE * x" by simp
  from assms EDGE_bounds(2) have le: "EDGE * x \<le> 72 / 100 * x" by simp
  from fl_upper [of "EDGE * x"] p have "fl (EDGE * x) \<le> EDGE * x * (1 + 1 / 2 ^ 53)"
    by (simp add: field_simps)
  also from le have "\<dots> \<le> 72 / 100 * x * (1 + 1 / 2 ^ 53)"
    by (rule mult_right_mono) simp
  finally show ?thesis .
qed

lemma edge_product_lower:
  assumes "0 < x"
  shows "72 / 100 * x * (1 - 1 / 2 ^ 52) \<le> fl (EDGE * x)"
proof -
  from assms EDGE_bounds have p: "0 < EDGE * x" by simp
  have "72 / 100 * (1 - 1 / 2 ^ 52) \<le> 72 / 100 * (1 - 1 / 2 ^ 53) * (1 - 1 / 2 ^ 53 :: real)"
    by simp
  also from EDGE_bounds(1) have "\<dots> \<le> EDGE * (1 - 1 / 2 ^ 53)"
    by (rule mult_right_mono) simp
  finally have "72 / 100 * (1 - 1 / 2 ^ 52) * x \<le> EDGE * (1 - 1 / 2 ^ 53) * x"
    using assms by (simp only: mult_le_cancel_right) simp
  also have "\<dots> = EDGE * x - \<bar>EDGE * x\<bar> / 2 ^ 53" using p by (simp add: field_simps)
  also have "\<dots> \<le> fl (EDGE * x)" by (rule fl_lower)
  finally show ?thesis by (simp add: mult.commute mult.left_commute)
qed

lemma glitch_step:
  assumes "real_of_int (nbr - nbr_priv s) < fl (EDGE * tbit s)" and "7 < length (bits s)"
    and "nbr_priv s \<le> nbr"
  shows "analyze_step t s (nbr, sg) = Inr s"
proof -
  from assms(3) have "0 \<le> real_of_int (nbr - nbr_priv s)" by simp
  with assms(1) have "0 < fl (EDGE * tbit s)" by linarith
  then have "0 < EDGE * tbit s" by (rule fl_pos_imp)
  then have pos: "0 < tbit s" using EDGE_bounds(3) by (simp add: zero_less_mult_iff)
  from edge_product_upper [OF pos] pos have "fl (EDGE * tbit s) \<le> 4 * tbit s"
    by (simp add: field_simps)
  with assms(1) have "\<not> real_of_int (nbr - nbr_priv s) > 4 * tbit s" by linarith
  with assms(1,2) pos show ?thesis by (simp add: analyze_step_def)
qed

lemma analyze_loop_append:
  "analyze_loop t s (xs @ ys) =
     (case analyze_loop t s xs of Inl err \<Rightarrow> Inl err | Inr s1 \<Rightarrow> analyze_loop t s1 ys)"
  by (induction xs arbitrary: s) (simp_all split: sum.splits)

lemma analyze_step_total: "tbit s \<noteq> 0 \<Longrightarrow> \<exists>s'. analyze_step t s e = Inr s'"
proof -
  assume z: "tbit s \<noteq> 0"
  obtain s1 where a: "add_record s (fst e) = Inr s1" using add_record_cases [of s "fst e"] by blast
  from add_record_fields [OF a] z have "tbit s1 \<noteq> 0" by simp
  with z a show ?thesis by (simp add: analyze_step_def Let_def)
qed

text \<open>The update of the data case: the halving is exact, subtraction and addition round.\<close>

lemma data_update: "fl (x + fl (fl (P - x) / AVG)) = fl (x + fl (P - x) / 2)"
  by (simp add: AVG_def fl_half)

lemma average_pos:
  assumes "0 < x" and "0 \<le> P"
  shows "0 < fl (x + fl (P - x) / 2)"
proof -
  have "- x - x / 2 ^ 53 \<le> fl (P - x)"
  proof (cases "x \<le> P")
    case True
    then have "0 \<le> fl (P - x)" by (intro fl_nonneg) simp
    with assms(1) show ?thesis by (simp add: add_nonneg_nonneg le_diff_eq)
  next
    case False
    then have "\<bar>P - x\<bar> = x - P" by simp
    with fl_lower [of "P - x"] have "P - x - (x - P) / 2 ^ 53 \<le> fl (P - x)" by simp
    moreover have "- x - x / 2 ^ 53 \<le> P - x - (x - P) / 2 ^ 53"
      using assms(2) by (simp add: field_simps)
    ultimately show ?thesis by linarith
  qed
  moreover have "x / 2 ^ 53 < x" using assms(1) by (simp add: field_simps)
  ultimately have "0 < x + fl (P - x) / 2" by linarith
  then show ?thesis by (rule fl_pos)
qed

lemma float_of_int_nonneg: "0 \<le> n \<Longrightarrow> 0 \<le> float_of_int n"
  unfolding float_of_int_def by (rule fl_nonneg) simp

lemma analyze_step_inv:
  assumes "analyze_step t s e = Inr s'" and "0 < rate t" and "0 < tbit s" and "nbr_priv s \<le> fst e"
  shows "0 < tbit s' \<and> nbr_priv s' \<le> fst e"
proof (cases "real_of_int (fst e - nbr_priv s) > 4 * tbit s")
  case True
  obtain s1 where a: "add_record s (fst e) = Inr s1" using add_record_cases [of s "fst e"] by blast
  from add_record_fields [OF a] have f: "tbit s1 = tbit s" "nbr_priv s1 = nbr_priv s" by simp_all
  from assms True a f seed_pos [OF assms(2)] show ?thesis
    by (auto simp add: analyze_step_def Let_def split: if_splits)
next
  case False
  have "0 \<le> float_of_int (fst e - nbr_priv s)"
    using assms(4) by (intro float_of_int_nonneg) simp
  with assms(3) have "0 < fl (tbit s + fl (float_of_int (fst e - nbr_priv s) - tbit s) / 2)"
    by (rule average_pos)
  with assms False show ?thesis
    by (auto simp add: analyze_step_def Let_def data_update split: if_splits)
qed

lemma analyze_loop_inv:
  assumes "0 < rate t"
  shows "0 < tbit s \<Longrightarrow> sorted (map fst es) \<Longrightarrow> \<forall>e \<in> set es. nbr_priv s \<le> fst e \<and> fst e \<le> hi \<Longrightarrow>
     nbr_priv s \<le> hi \<Longrightarrow>
     \<exists>s'. analyze_loop t s es = Inr s' \<and> 0 < tbit s' \<and> nbr_priv s' \<le> hi"
proof (induction es arbitrary: s)
  case Nil
  then show ?case by simp
next
  case (Cons e es)
  from Cons.prems(1) obtain s1 where 1: "analyze_step t s e = Inr s1"
    using analyze_step_total [of s t e] by auto
  from Cons.prems have le: "nbr_priv s \<le> fst e" by simp
  from analyze_step_inv [OF 1 assms Cons.prems(1) le] have i: "0 < tbit s1" "nbr_priv s1 \<le> fst e"
    by simp_all
  from Cons.prems(2) have so: "sorted (map fst es)" and ge: "\<forall>x \<in> set es. fst e \<le> fst x"
    by simp_all
  from ge i(2) Cons.prems(3) have b: "\<forall>x \<in> set es. nbr_priv s1 \<le> fst x \<and> fst x \<le> hi"
    by fastforce
  from i(2) Cons.prems(3) have "nbr_priv s1 \<le> hi" by fastforce
  from Cons.IH [OF i(1) so b this] 1 show ?case by simp
qed

lemma reachable_state_inv:
  assumes "0 < rate t" and "sorted (map fst (xs @ [e]))" and "\<forall>x \<in> set (xs @ [e]). 0 \<le> fst x"
    and "analyze_loop t (s0\<lparr>tbit := seed t, bits := [], nbr_priv := 0\<rparr>) xs = Inr s"
  shows "0 < tbit s \<and> nbr_priv s \<le> fst e"
proof -
  let ?i = "s0\<lparr>tbit := seed t, bits := [], nbr_priv := 0\<rparr>"
  have 1: "0 < tbit ?i" using seed_pos [OF assms(1)] by simp
  have 2: "sorted (map fst xs)" using assms(2) by (simp add: sorted_append)
  have 3: "\<forall>x \<in> set xs. nbr_priv ?i \<le> fst x \<and> fst x \<le> fst e"
    using assms(2,3) by (simp add: sorted_append)
  have 4: "nbr_priv ?i \<le> fst e" using assms(3) by simp
  from analyze_loop_inv [OF assms(1) 1 2 3 4] assms(4) show ?thesis by simp
qed

text \<open>The same for the edges that a track yields.\<close>

lemma track_states_inv:
  assumes "0 < rate t" and "fst (track_iter t) = xs @ e # ys"
    and "analyze_loop t (s0\<lparr>tbit := seed t, bits := [], nbr_priv := 0\<rparr>) xs = Inr s"
  shows "0 < tbit s \<and> nbr_priv s \<le> fst e"
proof -
  have "sorted_wrt (<) (map fst (xs @ e # ys))"
    using track_loop_sorted [of "sound t" "span t" "offset t" 0 0] assms(2)
    by (simp add: track_iter_def)
  then have "sorted_wrt (<) (map fst (xs @ [e]))"
    by (simp add: sorted_wrt_append)
  then have so: "sorted (map fst (xs @ [e]))"
    by (rule strict_sorted_imp_sorted)
  have nn: "\<forall>x \<in> set (xs @ [e]). 0 \<le> fst x"
  proof
    fix x assume "x \<in> set (xs @ [e])"
    then have "(fst x, snd x) \<in> set (fst (track_loop (sound t) (span t) (offset t) 0 0))"
      using assms(2) by (auto simp add: track_iter_def)
    from track_loop_events [OF refl this] show "0 \<le> fst x" by simp
  qed
  from reachable_state_inv [OF assms(1) so nn assms(3)] show ?thesis .
qed

lemma run8: "analyze_loop track0 tape0 edges8 = Inr tape8"
  by (simp add: edges8_def upt_conv_Cons data_step tape0_def tape8_def)

text \<open>A data step whose subtraction and addition are exact.\<close>

lemma exact_data_step:
  assumes "\<not> real_of_int (nbr - nbr_priv s) > 4 * tbit s"
    and "\<not> (real_of_int (nbr - nbr_priv s) < fl (EDGE * tbit s) \<and> length (bits s) > 7)"
    and "tbit s \<noteq> 0" and "\<bar>nbr - nbr_priv s\<bar> < 2 ^ 53"
    and "fl (real_of_int (nbr - nbr_priv s) - tbit s) = real_of_int (nbr - nbr_priv s) - tbit s"
    and "fl ((tbit s + real_of_int (nbr - nbr_priv s)) / 2)
           = (tbit s + real_of_int (nbr - nbr_priv s)) / 2"
  shows "analyze_step t s (nbr, sg) =
           Inr (s\<lparr>nbr_priv := nbr, tbit := (tbit s + real_of_int (nbr - nbr_priv s)) / 2,
                  bits := bits s @ [bit_of (nbr, sg)]\<rparr>)"
proof -
  define P where "P = real_of_int (nbr - nbr_priv s)"
  have f: "float_of_int (nbr - nbr_priv s) = P"
    unfolding P_def using assms(4) by (rule float_of_int_exact)
  have a: "tbit s + (P - tbit s) / 2 = (tbit s + P) / 2" by (simp add: field_simps)
  have "fl (tbit s + fl (fl (P - tbit s) / AVG)) = fl (tbit s + fl (P - tbit s) / 2)"
    by (rule data_update)
  also have "\<dots> = fl (tbit s + (P - tbit s) / 2)" using assms(5) by (simp only: P_def)
  also have "\<dots> = fl ((tbit s + P) / 2)" by (simp only: a)
  also have "\<dots> = (tbit s + P) / 2" using assms(6) by (simp only: P_def)
  finally have u: "fl (tbit s + fl (fl (float_of_int (nbr - nbr_priv s) - tbit s) / AVG))
      = (tbit s + P) / 2"
    by (simp only: f)
  from assms(1,2,3) show ?thesis
    unfolding analyze_step_def Let_def fst_conv snd_conv u
    by (auto simp add: bit_of_def P_def)
qed

lemma spaced_run:
  assumes "0 < T" and "0 \<le> c" and "c < 2 ^ 53" and "T < 2 ^ 53"
  shows "tbit s = of_int T + of_int c / 2 ^ j \<Longrightarrow>
     4 * c \<le> T * 2 ^ (j + (8 - length (bits s))) \<Longrightarrow>
     (\<And>i. i \<le> n \<Longrightarrow> fl (of_int T + of_int c / 2 ^ (j + i)) = of_int T + of_int c / 2 ^ (j + i)) \<Longrightarrow>
     analyze_loop t s (spaced (nbr_priv s) T sg n) =
       Inr (s\<lparr>nbr_priv := nbr_priv s + T * int n, tbit := of_int T + of_int c / 2 ^ (j + n),
              bits := bits s @ map bit_of (spaced (nbr_priv s) T sg n)\<rparr>)
     \<and> data_run t T s (spaced (nbr_priv s) T sg n)"
proof (induction n arbitrary: s j sg)
  case 0
  then show ?case by simp
next
  case (Suc n)
  let ?x = "tbit s"
  let ?nbr = "nbr_priv s + T"
  have pw: "?nbr - nbr_priv s = T" by simp
  have cpos: "0 \<le> real_of_int c / 2 ^ j" using assms(2) by simp
  with Suc.prems(1) assms(1) have x: "of_int T \<le> ?x" "0 < ?x" by simp_all
  have nb: "\<not> real_of_int T > 4 * ?x" using x assms(1) by simp
  have ng: "\<not> (real_of_int T < fl (EDGE * ?x) \<and> length (bits s) > 7)"
  proof (cases "length (bits s) > 7")
    case True
    then have "8 - length (bits s) = 0" by simp
    with Suc.prems(2) have "4 * c \<le> T * 2 ^ j" by simp
    then have "real_of_int (4 * c) \<le> real_of_int (T * 2 ^ j)" by (simp only: of_int_le_iff)
    then have "real_of_int c / 2 ^ j \<le> of_int T / 4" by (simp add: field_simps)
    with Suc.prems(1) have "?x \<le> 5 / 4 * of_int T" by linarith
    then have "72 / 100 * ?x * (1 + 1 / 2 ^ 53) \<le> 72 / 100 * (5 / 4 * of_int T) * (1 + 1 / 2 ^ 53)"
      by (intro mult_right_mono mult_left_mono) simp_all
    also have "\<dots> \<le> of_int T" using assms(1) by simp
    finally have "72 / 100 * ?x * (1 + 1 / 2 ^ 53) \<le> of_int T" .
    with edge_product_upper [OF x(2)] show ?thesis by linarith
  next
    case False
    then show ?thesis by simp
  qed
  have z: "?x \<noteq> 0" using x by simp
  have "\<bar>- c\<bar> < 2 ^ 53" using assms(2,3) by simp
  from fl_ratio [OF this, of j] have e1: "fl (real_of_int T - ?x) = real_of_int T - ?x"
    by (simp add: Suc.prems(1))
  have av: "(?x + real_of_int T) / 2 = of_int T + of_int c / 2 ^ (j + 1)"
    by (simp add: Suc.prems(1) field_simps)
  have e2: "fl ((?x + real_of_int T) / 2) = (?x + real_of_int T) / 2"
    unfolding av by (rule Suc.prems(3)) simp
  let ?s1 = "s\<lparr>nbr_priv := ?nbr, tbit := (?x + real_of_int T) / 2,
                 bits := bits s @ [bit_of (?nbr, sg)]\<rparr>"
  have st: "analyze_step t s (?nbr, sg) = Inr ?s1"
    using exact_data_step [where nbr = "?nbr" and s = s and sg = sg and t = t] nb ng z assms(1,4) e1 e2 by (simp only: pw) simp
  have t1: "tbit ?s1 = of_int T + of_int c / 2 ^ (Suc j)" using av by simp
  have g1: "4 * c \<le> T * 2 ^ (Suc j + (8 - length (bits ?s1)))"
  proof -
    have "j + (8 - length (bits s)) \<le> Suc j + (8 - length (bits ?s1))" by simp
    then have "(2::int) ^ (j + (8 - length (bits s))) \<le> 2 ^ (Suc j + (8 - length (bits ?s1)))"
      by (intro power_increasing) simp_all
    then have "T * 2 ^ (j + (8 - length (bits s))) \<le> T * 2 ^ (Suc j + (8 - length (bits ?s1)))"
      using assms(1) by (intro mult_left_mono) simp_all
    with Suc.prems(2) show ?thesis by linarith
  qed
  have r1: "\<And>i. i \<le> n \<Longrightarrow>
      fl (of_int T + of_int c / 2 ^ (Suc j + i)) = of_int T + of_int c / 2 ^ (Suc j + i)"
    using Suc.prems(3) [of "Suc _"] by simp
  from Suc.IH [OF t1 g1 r1, of "- sg"]
  have ih: "analyze_loop t ?s1 (spaced ?nbr T (- sg) n) =
       Inr (?s1\<lparr>nbr_priv := ?nbr + T * int n, tbit := of_int T + of_int c / 2 ^ (Suc j + n),
              bits := bits ?s1 @ map bit_of (spaced ?nbr T (- sg) n)\<rparr>)"
    and dr: "data_run t T ?s1 (spaced ?nbr T (- sg) n)"
    by simp_all
  have "analyze_loop t s (spaced (nbr_priv s) T sg (Suc n)) =
       Inr (s\<lparr>nbr_priv := nbr_priv s + T * int (Suc n), tbit := of_int T + of_int c / 2 ^ (j + Suc n),
              bits := bits s @ map bit_of (spaced (nbr_priv s) T sg (Suc n))\<rparr>)"
  proof -
    have p: "nbr_priv s + T + T * int n = nbr_priv s + T * int (Suc n)"
      by (simp add: algebra_simps)
    have "analyze_loop t s (spaced (nbr_priv s) T sg (Suc n))
        = analyze_loop t ?s1 (spaced ?nbr T (- sg) n)"
      by (simp add: st)
    then show ?thesis unfolding ih p by simp
  qed
  moreover have "data_run t T s (spaced (nbr_priv s) T sg (Suc n))"
    using nb ng z dr by (simp add: st)
  ultimately show ?case by blast
qed

lemma length_spaced [simp]: "length (spaced p T sg n) = n"
  by (induction n arbitrary: p sg) simp_all

lemma fl_plus_ratio:
  assumes "\<bar>T * 2 ^ k + c\<bar> < 2 ^ 53"
  shows "fl (of_int T + of_int c / 2 ^ k) = of_int T + of_int c / 2 ^ k"
proof -
  have "real_of_int T + of_int c / 2 ^ k = of_int (T * 2 ^ k + c) / 2 ^ k"
    by (simp add: field_simps)
  with fl_ratio [OF assms, of k] show ?thesis by simp
qed

lemma repr_124: "i \<le> 45 \<Longrightarrow> fl (of_int 124 + of_int 1 / 2 ^ (0 + i)) = of_int 124 + of_int 1 / 2 ^ (0 + i)"
proof -
  assume "i \<le> 45"
  then have "(2::int) ^ i \<le> 2 ^ 45" by (intro power_increasing) simp_all
  then have "\<bar>124 * 2 ^ i + (1::int)\<bar> < 2 ^ 53" by simp
  from fl_plus_ratio [OF this] show ?thesis by simp
qed

lemma step54: "analyze_step track0 tape0 (54, 1) = Inr (tape0\<lparr>nbr_priv := 54, tbit := 125, bits := [False]\<rparr>)"
proof -
  have a: "fl (- 142) = - 142" using fl_int [of "- 142"] by simp
  have b: "fl 125 = 125" using fl_int [of 125] by simp
  from exact_data_step [where nbr = 54 and s = tape0 and sg = 1 and t = track0]
  show ?thesis by (simp add: tape0_def a b bit_of_def)
qed

lemma run46:
  "analyze_loop track0 (tape0\<lparr>nbr_priv := 54, tbit := 125, bits := [False]\<rparr>) (spaced 54 124 (- 1) 45)
     = Inr (tape0\<lparr>nbr_priv := 5634, tbit := 124 + 1 / 2 ^ 45,
                 bits := False # map bit_of (spaced 54 124 (- 1) 45)\<rparr>)"
proof -
  let ?s = "tape0\<lparr>nbr_priv := 54, tbit := 125, bits := [False]\<rparr>"
  have 1: "tbit ?s = of_int 124 + of_int 1 / 2 ^ 0" by simp
  have 2: "4 * 1 \<le> (124::int) * 2 ^ (0 + (8 - length (bits ?s)))" by simp
  from spaced_run [where T = 124 and c = 1 and s = "?s" and j = 0 and n = 45 and t = track0 and sg = "- 1",
      OF _ _ _ _ 1 2 repr_124]
  show ?thesis by simp
qed

lemma step126:
  "analyze_step track0 (tape0\<lparr>nbr_priv := 5634, tbit := 124 + 1 / 2 ^ 45,
                 bits := False # map bit_of (spaced 54 124 (- 1) 45)\<rparr>) (5760, 1)
     = Inr tape47"
proof -
  let ?s = "tape0\<lparr>nbr_priv := 5634, tbit := 124 + 1 / 2 ^ 45,
                 bits := False # map bit_of (spaced 54 124 (- 1) 45)\<rparr>"
  have x: "0 < tbit ?s" by simp
  have "72 / 100 * tbit ?s * (1 + 1 / 2 ^ 53) < 126" by simp
  with edge_product_upper [OF x] have ng: "\<not> real_of_int (5760 - nbr_priv ?s) < fl (EDGE * tbit ?s)"
    by simp
  have a: "fl (real_of_int (5760 - nbr_priv ?s) - tbit ?s) = real_of_int (5760 - nbr_priv ?s) - tbit ?s"
    using fl_ratio [of "2 ^ 46 - 1" 45] by simp
  have b: "fl ((tbit ?s + real_of_int (5760 - nbr_priv ?s)) / 2)
             = (tbit ?s + real_of_int (5760 - nbr_priv ?s)) / 2"
    using fl_ratio [of "125 * 2 ^ 46 + 1" 46] by simp
  have nb: "\<not> real_of_int (5760 - nbr_priv ?s) > 4 * tbit ?s" by simp
  from exact_data_step [where nbr = 5760 and s = "?s" and sg = 1 and t = track0, OF nb _ _ _ a b] ng
  show ?thesis by (simp add: tape47_def edges47_def bit_of_def)
qed

lemma run47: "analyze_loop track0 tape0 edges47 = Inr tape47"
  by (simp only: edges47_def analyze_loop.simps step54 sum.case analyze_loop_append run46 step126)

text \<open>
  In the state \<open>tape47\<close> the exact product \<open>0.72 * tbit\<close> is above 90, the product of the
  two floats rounds to 90.
\<close>

lemma product47: "fl (EDGE * tbit tape47) = 90"
proof -
  let ?x = "EDGE * tbit tape47"
  have lo: "2 powi 6 \<le> \<bar>?x\<bar>" and hi: "\<bar>?x\<bar> < 2 powi (6 + 1)"
    by (simp_all add: EDGE_def tape47_def)
  have q: "(2::real) powi (6 - 52) = 1 / 2 ^ 46" by (simp add: power_int_minus field_simps)
  have "round_even (?x / (1 / 2 ^ 46)) = 90 * 2 ^ 46"
    by (rule round_even_unique) (simp add: EDGE_def tape47_def)
  with fl_eval [OF lo hi] show ?thesis by (simp add: q)
qed

lemma average47: "fl (tbit tape47 + fl (fl (float_of_int 90 - tbit tape47) / AVG)) = 215 / 2"
proof -
  have a: "fl (90 - tbit tape47) = 90 - tbit tape47"
    using fl_ratio [of "- (35 * 2 ^ 46 + 1)" 46] by (simp add: tape47_def)
  let ?y = "tbit tape47 + (90 - tbit tape47) / 2"
  have lo: "2 powi 6 \<le> \<bar>?y\<bar>" and hi: "\<bar>?y\<bar> < 2 powi (6 + 1)"
    by (simp_all add: tape47_def)
  have q: "(2::real) powi (6 - 52) = 1 / 2 ^ 46" by (simp add: power_int_minus field_simps)
  have "?y / (1 / 2 ^ 46) = of_int (215 * 2 ^ 45) + 1 / 2" by (simp add: tape47_def)
  then have "round_even (?y / (1 / 2 ^ 46)) = 215 * 2 ^ 45"
    by (simp only: round_even_tie) simp
  with fl_eval [OF lo hi] have y: "fl ?y = 215 / 2" by (simp add: q)
  have f: "float_of_int 90 = 90" by (simp add: float_of_int_exact)
  show ?thesis unfolding f AVG_def fl_half fl_idem a by (rule y)
qed

text \<open>
  The estimate stays positive and the last accepted position stays behind the edges to
  come (\<open>analyze_loop_inv\<close>, \<open>reachable_state_inv\<close>) whenever the sample rate is positive
  and the edges come in the order of their positions, as those of a track do
  (\<open>track_states_inv\<close>). So the two conditions \<open>tbit s \<noteq> 0\<close> and \<open>nbr_priv s \<le> nbr\<close> below hold in every state
  that an analysis reaches.

  C4. An edge whose pulse width exceeds four times the estimate finalizes the buffer
  (\<^verbatim>\<open>add_record\<close>, which leaves the estimate and the last position as they are and
  empties the buffer). After that a rising edge sets the last position to its own, the
  buffer to the single bit \<^verbatim>\<open>'0'\<close> and the estimate to the seed \<^verbatim>\<open>rate / BPS\<close>, the value
  that the analysis starts with; any other edge changes nothing more. The seed is the
  binary64 quotient of the rate and 225: it is \<open>rate / 225\<close> up to one rounding, and
  \<open>rate / 225\<close> itself when 225 divides the rate.
\<close>

theorem boundary_edge:
  assumes "real_of_int (nbr - nbr_priv s) > 4 * tbit s" and "tbit s \<noteq> 0"
  shows "\<exists>s1. add_record s nbr = Inr s1
     \<and> analyze_step t s (nbr, sg) =
         Inr (if sg = 1
              then s1\<lparr>nbr_priv := nbr, bits := [False], tbit := seed t\<rparr>
              else s1)
     \<and> nbr_priv s1 = nbr_priv s \<and> tbit s1 = tbit s \<and> bits s1 = []
     \<and> (\<bar>rate t\<bar> < 2 ^ 53 \<longrightarrow>
          seed t = fl (real_of_int (rate t) / 225)
          \<and> \<bar>seed t - real_of_int (rate t) / 225\<bar> \<le> \<bar>real_of_int (rate t) / 225\<bar> / 2 ^ 53)
     \<and> (\<bar>rate t\<bar> < 2 ^ 53 \<and> 225 dvd rate t \<longrightarrow> seed t = real_of_int (rate t) / 225)"
proof -
  from add_record_cases [of s nbr] obtain s1 where a: "add_record s nbr = Inr s1" by blast
  from add_record_fields [OF a] have f: "tbit s1 = tbit s" "nbr_priv s1 = nbr_priv s" "bits s1 = []"
    by simp_all
  from assms a f have st: "analyze_step t s (nbr, sg) =
         Inr (if sg = 1
              then s1\<lparr>nbr_priv := nbr, bits := [False], tbit := seed t\<rparr>
              else s1)"
    by (simp add: analyze_step_def)
  have r: "\<bar>rate t\<bar> < 2 ^ 53 \<longrightarrow>
          seed t = fl (real_of_int (rate t) / 225)
          \<and> \<bar>seed t - real_of_int (rate t) / 225\<bar> \<le> \<bar>real_of_int (rate t) / 225\<bar> / 2 ^ 53"
  proof
    assume "\<bar>rate t\<bar> < 2 ^ 53"
    then have "seed t = fl (real_of_int (rate t) / 225)"
      by (simp add: seed_def float_of_int_exact BPS_def)
    with fl_error [of "real_of_int (rate t) / 225"]
    show "seed t = fl (real_of_int (rate t) / 225)
          \<and> \<bar>seed t - real_of_int (rate t) / 225\<bar> \<le> \<bar>real_of_int (rate t) / 225\<bar> / 2 ^ 53"
      by simp
  qed
  have e: "\<bar>rate t\<bar> < 2 ^ 53 \<and> 225 dvd rate t \<longrightarrow> seed t = real_of_int (rate t) / 225"
    using seed_exact [of t] by blast
  from a st f r e show ?thesis by blast
qed

theorem boundary_edge_witness:
  "real_of_int (1000 - nbr_priv (tape0\<lparr>tbit := 150, bits := [True, False]\<rparr>))
      > 4 * tbit (tape0\<lparr>tbit := 150, bits := [True, False]\<rparr>)
   \<and> tbit (tape0\<lparr>tbit := 150, bits := [True, False]\<rparr>) \<noteq> 0
   \<and> \<bar>rate track0\<bar> < 2 ^ 53 \<and> 225 dvd rate track0
   \<and> seed track0 = 196
   \<and> analyze_step track0 (tape0\<lparr>tbit := 150, bits := [True, False]\<rparr>) (1000, 1)
        = Inr (tape0\<lparr>nbr_priv := 1000, bits := [False], tbit := 196\<rparr>)
   \<and> analyze_step track0 (tape0\<lparr>tbit := 150, bits := [True, False]\<rparr>) (1000, - 1)
        = Inr (tape0\<lparr>tbit := 150, bits := []\<rparr>)"
proof -
  let ?s = "tape0\<lparr>tbit := 150, bits := [True, False]\<rparr>"
  have h1: "real_of_int (1000 - nbr_priv ?s) > 4 * tbit ?s" and h2: "tbit ?s \<noteq> 0"
    by (simp_all add: tape0_def)
  have h3: "\<bar>rate track0\<bar> < 2 ^ 53 \<and> 225 dvd rate track0" by (simp add: track0_def)
  have a: "add_record ?s 1000 = Inr (tape0\<lparr>tbit := 150, bits := []\<rparr>)"
    by (simp add: add_record_short tape0_def)
  from boundary_edge [OF h1 h2, of track0 1] h3 have sd: "seed track0 = 196"
    by (auto simp add: track0_def)
  from boundary_edge [OF h1 h2, of track0 1] boundary_edge [OF h1 h2, of track0 "- 1"] a h1 h2 h3 sd
  show ?thesis
    by (simp add: tape0_def)
qed

text \<open>
  C3. An edge whose pulse width is below the product \<^verbatim>\<open>EDGE * self.tbit\<close> as the program
  computes it (the binary64 number nearest to 0.72, times the estimate, rounded to
  binary64), met with more than 7 bits in the buffer, leaves the whole session as it is:
  last position, estimate, buffer and record list. This is so in particular when the
  pulse width is below \<open>0.72 * (1 - 2\<^sup>-\<^sup>5\<^sup>2)\<close> times the estimate. Hence an analysis of
  a stream with such an edge inserted, after any prefix \<open>xs\<close> that leads to this state,
  ends in the same session as without it.
\<close>

theorem glitch_edge_dropped:
  assumes "real_of_int (nbr - nbr_priv s) < fl (EDGE * tbit s)
           \<or> real_of_int (nbr - nbr_priv s) < 72 / 100 * tbit s * (1 - 1 / 2 ^ 52)"
    and "7 < length (bits s)" and "nbr_priv s \<le> nbr"
  shows "analyze_step t s (nbr, sg) = Inr s
     \<and> (\<forall>s0 xs ys err.
          analyze_loop t (s0\<lparr>tbit := seed t, bits := [], nbr_priv := 0\<rparr>) xs = Inr s \<longrightarrow>
          analyze_edges t s0 (xs @ (nbr, sg) # ys, err) = analyze_edges t s0 (xs @ ys, err))"
proof (intro conjI allI impI)
  have lt: "real_of_int (nbr - nbr_priv s) < fl (EDGE * tbit s)"
  proof (cases "real_of_int (nbr - nbr_priv s) < fl (EDGE * tbit s)")
    case True
    then show ?thesis .
  next
    case False
    with assms(1) have b: "real_of_int (nbr - nbr_priv s) < 72 / 100 * tbit s * (1 - 1 / 2 ^ 52)"
      by blast
    from assms(3) have "0 \<le> real_of_int (nbr - nbr_priv s)" by simp
    with b have "0 < 72 / 100 * tbit s * (1 - 1 / 2 ^ 52)" by linarith
    then have "0 < tbit s" by (simp add: zero_less_mult_iff)
    from edge_product_lower [OF this] b show ?thesis by linarith
  qed
  then show g: "analyze_step t s (nbr, sg) = Inr s" using assms(2,3) by (rule glitch_step)
  fix s0 :: session and xs ys err
  let ?i = "s0\<lparr>tbit := seed t, bits := [], nbr_priv := 0\<rparr>"
  assume xs: "analyze_loop t ?i xs = Inr s"
  have "analyze_loop t ?i (xs @ (nbr, sg) # ys) = analyze_loop t ?i (xs @ ys)"
    by (simp add: analyze_loop_append xs g)
  then show "analyze_edges t s0 (xs @ (nbr, sg) # ys, err) = analyze_edges t s0 (xs @ ys, err)"
    by (simp only: analyze_edges_loop)
qed

theorem glitch_edge_dropped_witness:
  "real_of_int (1600 - nbr_priv tape8) < fl (EDGE * tbit tape8) \<and> 7 < length (bits tape8)
   \<and> nbr_priv tape8 \<le> 1600
   \<and> analyze_step track0 tape8 (1600, - 1) = Inr tape8
   \<and> analyze_loop track0 tape0 edges8 = Inr tape8
   \<and> analyze_edges track0 tape0 (edges8 @ (1600, - 1) # [(1764, 1)], None)
       = analyze_edges track0 tape0 (edges8 @ [(1764, 1)], None)"
proof -
  have h1: "real_of_int (1600 - nbr_priv tape8) < fl (EDGE * tbit tape8)"
    using fl_EDGE_196_lower by (simp add: tape8_def tape0_def)
  then have h: "real_of_int (1600 - nbr_priv tape8) < fl (EDGE * tbit tape8)
           \<or> real_of_int (1600 - nbr_priv tape8) < 72 / 100 * tbit tape8 * (1 - 1 / 2 ^ 52)"
    "7 < length (bits tape8)" "nbr_priv tape8 \<le> 1600"
    by (simp_all add: tape8_def tape0_def)
  have t0: "tape0\<lparr>tbit := seed track0, bits := [], nbr_priv := 0\<rparr> = tape0"
    by (simp add: tape0_def seed_track0)
  from glitch_edge_dropped [OF h, of track0 "- 1"]
  have 1: "analyze_step track0 tape8 (1600, - 1) = Inr tape8"
    and 2: "\<And>(s0 :: session) xs ys err.
          analyze_loop track0 (s0\<lparr>tbit := seed track0, bits := [], nbr_priv := 0\<rparr>) xs
            = Inr tape8 \<Longrightarrow>
          analyze_edges track0 s0 (xs @ (1600, - 1) # ys, err) = analyze_edges track0 s0 (xs @ ys, err)"
    by blast+
  have "analyze_edges track0 tape0 (edges8 @ (1600, - 1) # [(1764, 1)], None)
       = analyze_edges track0 tape0 (edges8 @ [(1764, 1)], None)"
    by (rule 2) (simp add: t0 run8)
  with h1 h(2,3) 1 run8 show ?thesis by simp
qed

text \<open>
  The claim as the specification words it, with the exact product \<open>0.72 * tbit\<close>, fails
  in a state that an analysis reaches: after the edges \<open>edges47\<close> the estimate is
  \<open>125 + 2\<^sup>-\<^sup>4\<^sup>6\<close> and 47 bits are in the buffer. An edge 90 samples later has a pulse
  width below \<open>0.72 * tbit\<close>, but the product of the two floats rounds to 90, so the
  edge is taken as a data bit.
\<close>

theorem rounded_product_counterexample:
  "tape0\<lparr>tbit := seed track0, bits := [], nbr_priv := 0\<rparr> = tape0
   \<and> analyze_loop track0 tape0 edges47 = Inr tape47
   \<and> nbr_priv tape47 \<le> 5850
   \<and> real_of_int (5850 - nbr_priv tape47) < 72 / 100 * tbit tape47
   \<and> 7 < length (bits tape47)
   \<and> analyze_step track0 tape47 (5850, - 1)
       = Inr (tape47\<lparr>nbr_priv := 5850, tbit := 215 / 2, bits := bits tape47 @ [True]\<rparr>)
   \<and> analyze_step track0 tape47 (5850, - 1) \<noteq> Inr tape47"
proof -
  have t0: "tape0\<lparr>tbit := seed track0, bits := [], nbr_priv := 0\<rparr> = tape0"
    by (simp add: tape0_def seed_track0)
  have f: "nbr_priv tape47 = 5760" "tbit tape47 = 125 + 1 / 2 ^ 46" "length (bits tape47) = 47"
    by (simp_all add: tape47_def edges47_def)
  have lt: "real_of_int (5850 - nbr_priv tape47) < 72 / 100 * tbit tape47" by (simp add: f)
  have pw: "5850 - nbr_priv tape47 = 90" by (simp add: f)
  have st: "analyze_step track0 tape47 (5850, - 1)
       = Inr (tape47\<lparr>nbr_priv := 5850, tbit := 215 / 2, bits := bits tape47 @ [True]\<rparr>)"
    unfolding analyze_step_def Let_def fst_conv snd_conv pw product47 average47
    by (simp add: f)
  have "nbr_priv (tape47\<lparr>nbr_priv := 5850, tbit := 215 / 2, bits := bits tape47 @ [True]\<rparr>) \<noteq> nbr_priv tape47"
    by (simp add: f)
  then have ne: "tape47\<lparr>nbr_priv := 5850, tbit := 215 / 2, bits := bits tape47 @ [True]\<rparr> \<noteq> tape47"
    by metis
  from t0 run47 lt st ne f show ?thesis by simp
qed

section \<open>The record reporter\<close>

text \<open>The model of \<^verbatim>\<open>crcfunc\<close> gives the check value of CRC-16/ARC.\<close>

lemma funpow8: "(f ^^ 8) x = f (f (f (f (f (f (f (f x)))))))"
  by (simp add: numeral_eq_Suc)

lemma crc_check_value:
  "crcfunc [0x31, 0x32, 0x33, 0x34, 0x35, 0x36, 0x37, 0x38, 0x39] = 0xBB3D"
  by (simp add: crcfunc_def crc_update_def funpow8 crc_shift_def)

lemma crc_rec5: "crcfunc [1, 2, 3] \<noteq> 0"
  by (simp add: crcfunc_def crc_update_def funpow8 crc_shift_def)

lemma crc_rec13:
  "crcfunc [0x31, 0x32, 0x33, 0x34, 0x35, 0x36, 0x37, 0x38, 0x39, 0x3D, 0xBB] = 0"
  by (simp add: crcfunc_def crc_update_def funpow8 crc_shift_def)

lemma hexdigit_in: "d < 16 \<Longrightarrow> hexdigits ! d \<in> set hexdigits"
proof -
  have "length hexdigits = 16" by (simp add: hexdigits_def)
  then show "d < 16 \<Longrightarrow> hexdigits ! d \<in> set hexdigits" by (intro nth_mem) simp
qed

lemma B_notin_hexdigits: "CHR ''B'' \<notin> set hexdigits"
  by (simp add: hexdigits_def)

lemma decimal_chars: "set (decimal n) \<subseteq> set hexdigits"
proof (induction n rule: decimal.induct)
  case (1 n)
  show ?case
  proof (cases "n < 10")
    case True
    then show ?thesis by (subst decimal.simps) (simp add: hexdigit_in)
  next
    case False
    have "n mod 10 < 16" by (rule less_trans [OF mod_less_divisor]) simp_all
    with False "1.IH" show ?thesis by (subst decimal.simps) (simp add: hexdigit_in)
  qed
qed

lemma hex_chars: "set (hex bs) \<subseteq> set hexdigits"
proof -
  have "unat b div 16 < 16" for b :: byte
    using unsigned_less [of b, where 'a = nat] by (simp add: less_mult_imp_div_less)
  then show ?thesis
    by (auto simp add: hex_def hex_byte_def intro!: hexdigit_in)
qed

lemma B_notin_summary_head: "CHR ''B'' \<notin> set (summary_head octets)"
proof
  assume "CHR ''B'' \<in> set (summary_head octets)"
  then consider "CHR ''B'' \<in> set (decimal (length octets))" | "CHR ''B'' \<in> set (hex octets)"
    | "CHR ''B'' \<in> set (hex (take 4 octets))"
    | "CHR ''B'' \<in> set (hex (drop (length octets - 4) octets))"
    by (auto simp add: summary_head_def fmt_5d_def ellipsis_def split: if_splits)
  then have "CHR ''B'' \<in> set hexdigits"
    using decimal_chars hex_chars by cases blast+
  with B_notin_hexdigits show False by contradiction
qed

lemma slice_interior: "slice xs (Suc 0) (length xs - Suc 0) = butlast (tl xs)"
  by (simp add: slice_def butlast_conv_take drop_Suc drop_take tl_take)

lemma report_record_eq:
  "octets \<noteq> [] \<Longrightarrow> report_record octets =
     Inr (summary_head octets
          @ (if hd octets \<noteq> 0xAA then '' Bad_preamble'' else [])
          @ (if last octets \<noteq> 0xAA then '' Bad_postamble'' else [])
          @ (if crcfunc (butlast (tl octets)) \<noteq> 0 then '' Bad_CRC'' else []))"
  by (simp add: report_record_def Let_def summary_head_def slice_interior)

lemma sublist_after_head:
  assumes "c \<notin> set pre"
  shows "sublist (c # w) (pre @ suf) \<longleftrightarrow> sublist (c # w) suf"
proof
  assume "sublist (c # w) (pre @ suf)"
  then obtain ps ss where e: "pre @ suf = ps @ (c # w) @ ss" by (auto simp add: sublist_def)
  then consider us where "pre = ps @ us" "us @ suf = (c # w) @ ss"
    | us where "pre @ us = ps" "suf = us @ (c # w) @ ss"
    by (auto simp add: append_eq_append_conv2)
  then show "sublist (c # w) suf"
  proof cases
    case 1
    with assms have "us = []" by (cases us) auto
    with 1 show ?thesis by (auto simp add: sublist_def intro: exI [of _ "[]"])
  next
    case 2
    then show ?thesis by (auto simp add: sublist_def)
  qed
next
  assume "sublist (c # w) suf"
  then show "sublist (c # w) (pre @ suf)" by (auto simp add: sublist_append)
qed

lemma flag_suffix_cases:
  "(if a then '' Bad_preamble'' else []) @ (if b then '' Bad_postamble'' else [])
      @ (if c then '' Bad_CRC'' else []) = suf \<Longrightarrow>
   (sublist ''Bad_preamble'' suf \<longleftrightarrow> a) \<and> (sublist ''Bad_postamble'' suf \<longleftrightarrow> b)
   \<and> (sublist ''Bad_CRC'' suf \<longleftrightarrow> c)"
  by (cases a; cases b; cases c) (auto simp add: sublist_Cons_right)

text \<open>
  C5. For a record that is not empty, \<^verbatim>\<open>report_record\<close> returns a summary that contains
  \<open>Bad_preamble\<close> exactly when the first byte is not \<open>0xAA\<close>, \<open>Bad_postamble\<close> exactly when
  the last byte is not \<open>0xAA\<close>, and \<open>Bad_CRC\<close> exactly when the CRC-16/ARC of the bytes
  without the first and the last is not zero. The summary is a head without the letter
  \<open>B\<close>, followed by the flags that are present in the order preamble, postamble, CRC.
\<close>

theorem report_record_flags:
  assumes "octets \<noteq> []"
  shows "\<exists>line head. report_record octets = Inr line
     \<and> (sublist ''Bad_preamble'' line \<longleftrightarrow> hd octets \<noteq> 0xAA)
     \<and> (sublist ''Bad_postamble'' line \<longleftrightarrow> last octets \<noteq> 0xAA)
     \<and> (sublist ''Bad_CRC'' line \<longleftrightarrow> crcfunc (butlast (tl octets)) \<noteq> 0)
     \<and> CHR ''B'' \<notin> set head
     \<and> line = head @ (if hd octets \<noteq> 0xAA then '' Bad_preamble'' else [])
                    @ (if last octets \<noteq> 0xAA then '' Bad_postamble'' else [])
                    @ (if crcfunc (butlast (tl octets)) \<noteq> 0 then '' Bad_CRC'' else [])"
proof -
  define suf where "suf = (if hd octets \<noteq> 0xAA then '' Bad_preamble'' else [])
                    @ (if last octets \<noteq> 0xAA then '' Bad_postamble'' else [])
                    @ (if crcfunc (butlast (tl octets)) \<noteq> 0 then '' Bad_CRC'' else [])"
  have r: "report_record octets = Inr (summary_head octets @ suf)"
    using assms by (simp add: report_record_eq suf_def)
  have s: "(sublist ''Bad_preamble'' suf \<longleftrightarrow> hd octets \<noteq> 0xAA)
      \<and> (sublist ''Bad_postamble'' suf \<longleftrightarrow> last octets \<noteq> 0xAA)
      \<and> (sublist ''Bad_CRC'' suf \<longleftrightarrow> crcfunc (butlast (tl octets)) \<noteq> 0)"
    by (rule flag_suffix_cases) (simp add: suf_def)
  have h: "sublist (CHR ''B'' # w) (summary_head octets @ suf) \<longleftrightarrow> sublist (CHR ''B'' # w) suf"
    for w
    by (rule sublist_after_head) (rule B_notin_summary_head)
  from s h [of "''ad_preamble''"] h [of "''ad_postamble''"] h [of "''ad_CRC''"]
  have l: "sublist ''Bad_preamble'' (summary_head octets @ suf) \<longleftrightarrow> hd octets \<noteq> 0xAA"
    "sublist ''Bad_postamble'' (summary_head octets @ suf) \<longleftrightarrow> last octets \<noteq> 0xAA"
    "sublist ''Bad_CRC'' (summary_head octets @ suf) \<longleftrightarrow> crcfunc (butlast (tl octets)) \<noteq> 0"
    by simp_all
  have e: "summary_head octets @ suf = summary_head octets
                    @ (if hd octets \<noteq> 0xAA then '' Bad_preamble'' else [])
                    @ (if last octets \<noteq> 0xAA then '' Bad_postamble'' else [])
                    @ (if crcfunc (butlast (tl octets)) \<noteq> 0 then '' Bad_CRC'' else [])"
    by (simp only: suf_def)
  show ?thesis
    by (intro exI [of _ "summary_head octets @ suf"] exI [of _ "summary_head octets"] conjI)
       (rule r l B_notin_summary_head e)+
qed

theorem report_record_flags_witness:
  "rec5 \<noteq> [] \<and> rec13 \<noteq> []
   \<and> (\<exists>line. report_record rec5 = Inr line
     \<and> \<not> sublist ''Bad_preamble'' line \<and> sublist ''Bad_postamble'' line
     \<and> sublist ''Bad_CRC'' line)
   \<and> (\<exists>line. report_record rec13 = Inr line
     \<and> \<not> sublist ''Bad_preamble'' line \<and> \<not> sublist ''Bad_postamble'' line
     \<and> \<not> sublist ''Bad_CRC'' line)"
proof -
  have h: "rec5 \<noteq> []" and g: "rec13 \<noteq> []" by (simp_all add: rec5_def rec13_def)
  from report_record_flags [OF h] crc_rec5 have
    "\<exists>line. report_record rec5 = Inr line
     \<and> \<not> sublist ''Bad_preamble'' line \<and> sublist ''Bad_postamble'' line
     \<and> sublist ''Bad_CRC'' line"
    by (auto simp add: rec5_def)
  moreover from report_record_flags [OF g] crc_rec13 have
    "\<exists>line. report_record rec13 = Inr line
     \<and> \<not> sublist ''Bad_preamble'' line \<and> \<not> sublist ''Bad_postamble'' line
     \<and> \<not> sublist ''Bad_CRC'' line"
    by (auto simp add: rec13_def)
  ultimately show ?thesis using h g by blast
qed

section \<open>The tape header\<close>

lemma decode_ascii_eq:
  "decode_ascii bs = (if is_ascii bs then Inr (to_str bs) else Inl UnicodeDecodeError)"
  by (simp add: decode_ascii_def is_ascii_def to_str_def)

lemma slice_split: "i \<le> j \<Longrightarrow> j \<le> k \<Longrightarrow> k \<le> length xs \<Longrightarrow> slice xs i k = slice xs i j @ slice xs j k"
proof -
  assume a: "i \<le> j" "j \<le> k" "k \<le> length xs"
  then have "take k xs = take j xs @ take (k - j) (drop j xs)"
    by (metis le_add_diff_inverse take_add)
  moreover have "drop j (take k xs) = take (k - j) (drop j xs)" by (simp add: drop_take)
  ultimately show ?thesis using a by (simp add: slice_def)
qed

lemma is_ascii_slot:
  "i + 13 \<le> length head \<Longrightarrow>
   is_ascii (slice head i (i + 13))
     \<longleftrightarrow> is_ascii (slice head i (i + 10)) \<and> is_ascii (slice head (i + 10) (i + 13))"
  using slice_split [of i "i + 10" "i + 13" head] by (auto simp add: is_ascii_def)

lemma file_loop_stop:
  "i < length head \<Longrightarrow> \<not> listable head i \<Longrightarrow> file_loop head i = gen_return"
  by (subst file_loop.simps) (auto simp add: listable_def)

lemma file_loop_bork:
  "listable head i \<Longrightarrow> \<not> is_ascii (slice head i (i + 13)) \<Longrightarrow>
   file_loop head i = \<lparr>yielded = [], printed = bork head i, raised = None\<rparr>"
  by (subst file_loop.simps)
     (auto simp add: listable_def decode_ascii_eq is_ascii_slot gen_print_def gen_return_def
        bork_def)

lemma file_loop_entry:
  "listable head i \<Longrightarrow> is_ascii (slice head i (i + 13)) \<Longrightarrow>
   file_loop head i = gen_yield (entry_at head i) (file_loop head (i + 26))"
  by (subst file_loop.simps)
     (auto simp add: listable_def decode_ascii_eq is_ascii_slot entry_at_def)

lemma file_loop_listing:
  "i < length head \<Longrightarrow>
   \<exists>n. yielded (file_loop head i) = map (\<lambda>k. entry_at head (i + 26 * k)) [0..<n]
      \<and> raised (file_loop head i) = None
      \<and> (\<forall>k<n. listable head (i + 26 * k) \<and> is_ascii (slice head (i + 26 * k) (i + 26 * k + 13)))
      \<and> \<not> (listable head (i + 26 * n) \<and> is_ascii (slice head (i + 26 * n) (i + 26 * n + 13)))
      \<and> printed (file_loop head i) = (if listable head (i + 26 * n) then bork head (i + 26 * n) else [])"
proof (induction "length head - i" arbitrary: i rule: less_induct)
  case less
  show ?case
  proof (cases "listable head i")
    case False
    with less.prems show ?thesis
      by (intro exI [of _ 0]) (simp add: file_loop_stop gen_return_def)
  next
    case True
    show ?thesis
    proof (cases "is_ascii (slice head i (i + 13))")
      case False
      with True show ?thesis
        by (intro exI [of _ 0]) (simp add: file_loop_bork)
    next
      case asc: True
      from True have lt: "i + 26 < length head" by (simp add: listable_def)
      then have "length head - (i + 26) < length head - i" by simp
      from less.hyps [OF this lt] obtain n where n:
        "yielded (file_loop head (i + 26)) = map (\<lambda>k. entry_at head (i + 26 + 26 * k)) [0..<n]"
        "raised (file_loop head (i + 26)) = None"
        "\<forall>k<n. listable head (i + 26 + 26 * k) \<and> is_ascii (slice head (i + 26 + 26 * k) (i + 26 + 26 * k + 13))"
        "\<not> (listable head (i + 26 + 26 * n) \<and> is_ascii (slice head (i + 26 + 26 * n) (i + 26 + 26 * n + 13)))"
        "printed (file_loop head (i + 26)) = (if listable head (i + 26 + 26 * n) then bork head (i + 26 + 26 * n) else [])"
        by blast
      have all: "listable head (i + 26 * k) \<and> is_ascii (slice head (i + 26 * k) (i + 26 * k + 13))"
        if "k < Suc n" for k
      proof (cases k)
        case 0
        with True asc show ?thesis by simp
      next
        case (Suc k')
        with that n(3) have "listable head (i + 26 + 26 * k') \<and> is_ascii (slice head (i + 26 + 26 * k') (i + 26 + 26 * k' + 13))"
          by simp
        with Suc show ?thesis by (simp add: add.assoc)
      qed
      have y: "yielded (file_loop head i) = map (\<lambda>k. entry_at head (i + 26 * k)) [0..<Suc n]"
        unfolding map_upt_Suc
        by (simp add: file_loop_entry [OF True asc] gen_yield_def n(1) add.assoc)
      from n(2,4,5) all y show ?thesis
        by (intro exI [of _ "Suc n"])
           (simp add: file_loop_entry [OF True asc] gen_yield_def add.assoc)
    qed
  qed
qed

lemma header_absent:
  assumes "records s \<noteq> []" and "3 \<le> length (hd (records s))"
    and "hd (records s) ! 0 \<noteq> 0xAA \<or> hd (records s) ! 1 \<noteq> 0 \<or> hd (records s) ! 2 \<noteq> 0"
  shows "interpret_tape_header s = gen_return"
  using assms by (auto simp add: interpret_tape_header_def Let_def)

lemma header_present:
  assumes "records s \<noteq> []" and "3 \<le> length (hd (records s))"
    and "hd (records s) ! 0 = 0xAA" and "hd (records s) ! 1 = 0" and "hd (records s) ! 2 = 0"
    and "is_ascii (slice (hd (records s)) 4 54)"
  shows "interpret_tape_header s =
     gen_yield ''Tape label:''
       (gen_yield ([CHR 0x09] @ rstrip (to_str (slice (hd (records s)) 4 54)))
          (gen_yield ''File list:'' (file_loop (hd (records s)) 67)))"
  using assms by (auto simp add: interpret_tape_header_def Let_def decode_ascii_eq)

text \<open>
  C6, as the code has it, for a first record \<open>head\<close> of at least 3 bytes. When byte 0 is
  not \<open>0xAA\<close> or byte 1 or byte 2 is not 0, nothing is yielded, nothing is printed and
  nothing is raised. Otherwise, when the record has at least 68 bytes and the 50 bytes at
  offset 4 are ASCII, the generator yields the label line with these bytes decoded and
  stripped of trailing white space, then one line for each of the first \<open>n\<close> slots of 26
  bytes from offset 67 on; each of these slots starts with a byte strictly between
  \<open>0x20\<close> and \<open>0x6E\<close>, has at least 29 bytes from its start to the end of the record, and
  has an ASCII name and extension. Slot \<open>n\<close> is the first that is not so: if it is
  listable but not ASCII, the failure and the hex dump of its 26 bytes are printed. In
  both cases the listing ends without an exception.
\<close>

theorem tape_header_fields:
  assumes "records s \<noteq> []" and "head = hd (records s)" and "3 \<le> length head"
  shows "(head ! 0 \<noteq> 0xAA \<or> head ! 1 \<noteq> 0 \<or> head ! 2 \<noteq> 0 \<longrightarrow>
            interpret_tape_header s = \<lparr>yielded = [], printed = [], raised = None\<rparr>)
     \<and> (head ! 0 = 0xAA \<and> head ! 1 = 0 \<and> head ! 2 = 0 \<and> 68 \<le> length head
          \<and> is_ascii (slice head 4 54) \<longrightarrow>
          (\<exists>n. yielded (interpret_tape_header s) =
                  [''Tape label:'', [CHR 0x09] @ rstrip (to_str (slice head 4 54)), ''File list:'']
                    @ map (\<lambda>k. entry_at head (67 + 26 * k)) [0..<n]
              \<and> raised (interpret_tape_header s) = None
              \<and> (\<forall>k<n. listable head (67 + 26 * k)
                        \<and> is_ascii (slice head (67 + 26 * k) (67 + 26 * k + 13)))
              \<and> \<not> (listable head (67 + 26 * n)
                     \<and> is_ascii (slice head (67 + 26 * n) (67 + 26 * n + 13)))
              \<and> printed (interpret_tape_header s) =
                  (if listable head (67 + 26 * n)
                   then [Bork UnicodeDecodeError,
                         Dump (hex (slice head (67 + 26 * n) (67 + 26 * n + 26)))]
                   else [])))"
proof (intro conjI impI)
  assume "head ! 0 \<noteq> 0xAA \<or> head ! 1 \<noteq> 0 \<or> head ! 2 \<noteq> 0"
  with assms show "interpret_tape_header s = \<lparr>yielded = [], printed = [], raised = None\<rparr>"
    by (simp add: header_absent gen_return_def)
next
  assume a: "head ! 0 = 0xAA \<and> head ! 1 = 0 \<and> head ! 2 = 0 \<and> 68 \<le> length head
          \<and> is_ascii (slice head 4 54)"
  then have "67 < length head" by simp
  from file_loop_listing [OF this] obtain n where n:
    "yielded (file_loop head 67) = map (\<lambda>k. entry_at head (67 + 26 * k)) [0..<n]"
    "raised (file_loop head 67) = None"
    "\<forall>k<n. listable head (67 + 26 * k) \<and> is_ascii (slice head (67 + 26 * k) (67 + 26 * k + 13))"
    "\<not> (listable head (67 + 26 * n) \<and> is_ascii (slice head (67 + 26 * n) (67 + 26 * n + 13)))"
    "printed (file_loop head 67) = (if listable head (67 + 26 * n) then bork head (67 + 26 * n) else [])"
    by blast
  have h: "interpret_tape_header s =
     gen_yield ''Tape label:''
       (gen_yield ([CHR 0x09] @ rstrip (to_str (slice head 4 54)))
          (gen_yield ''File list:'' (file_loop head 67)))"
    using assms a by (simp add: header_present)
  from n show "\<exists>n. yielded (interpret_tape_header s) =
                  [''Tape label:'', [CHR 0x09] @ rstrip (to_str (slice head 4 54)), ''File list:'']
                    @ map (\<lambda>k. entry_at head (67 + 26 * k)) [0..<n]
              \<and> raised (interpret_tape_header s) = None
              \<and> (\<forall>k<n. listable head (67 + 26 * k)
                        \<and> is_ascii (slice head (67 + 26 * k) (67 + 26 * k + 13)))
              \<and> \<not> (listable head (67 + 26 * n)
                     \<and> is_ascii (slice head (67 + 26 * n) (67 + 26 * n + 13)))
              \<and> printed (interpret_tape_header s) =
                  (if listable head (67 + 26 * n)
                   then [Bork UnicodeDecodeError,
                         Dump (hex (slice head (67 + 26 * n) (67 + 26 * n + 26)))]
                   else [])"
    by (intro exI [of _ n]) (simp add: h gen_yield_def bork_def)
qed

lemma head96_facts:
  "3 \<le> length head96" "head96 ! 0 = 0xAA" "head96 ! 1 = 0" "head96 ! 2 = 0" "68 \<le> length head96"
  "is_ascii (slice head96 4 54)"
  "listable head96 67" "is_ascii (slice head96 67 (67 + 13))" "\<not> listable head96 (67 + 26)"
  "[CHR 0x09] @ rstrip (to_str (slice head96 4 54)) = CHR 0x09 # ''TAPE''"
  "entry_at head96 67 = CHR 0x09 # ''PROG.BAS''"
  unfolding head96_def by code_simp+

theorem tape_header_fields_witness:
  "records (tape0\<lparr>records := [head96]\<rparr>) \<noteq> [] \<and> 3 \<le> length head96
   \<and> head96 ! 0 = 0xAA \<and> head96 ! 1 = 0 \<and> head96 ! 2 = 0 \<and> 68 \<le> length head96
   \<and> is_ascii (slice head96 4 54)
   \<and> yielded (interpret_tape_header (tape0\<lparr>records := [head96]\<rparr>))
        = [''Tape label:'', CHR 0x09 # ''TAPE'', ''File list:'', CHR 0x09 # ''PROG.BAS'']
   \<and> [0xAA, 1, 2, 3, 0 :: byte] ! 1 \<noteq> 0
   \<and> interpret_tape_header (tape0\<lparr>records := [[0xAA, 1, 2, 3, 0]]\<rparr>)
        = \<lparr>yielded = [], printed = [], raised = None\<rparr>"
proof -
  let ?s = "tape0\<lparr>records := [head96]\<rparr>"
  have r: "records ?s \<noteq> []" and h: "head96 = hd (records ?s)" by simp_all
  from tape_header_fields [OF r h head96_facts(1)] head96_facts(2-6)
  obtain n where n:
    "yielded (interpret_tape_header ?s) =
       [''Tape label:'', [CHR 0x09] @ rstrip (to_str (slice head96 4 54)), ''File list:'']
         @ map (\<lambda>k. entry_at head96 (67 + 26 * k)) [0..<n]"
    "\<forall>k<n. listable head96 (67 + 26 * k)
        \<and> is_ascii (slice head96 (67 + 26 * k) (67 + 26 * k + 13))"
    "\<not> (listable head96 (67 + 26 * n)
        \<and> is_ascii (slice head96 (67 + 26 * n) (67 + 26 * n + 13)))"
    by blast
  have "n \<noteq> 0" using n(3) head96_facts(7,8) by (cases n) auto
  moreover have "n < 2"
  proof (rule ccontr)
    assume "\<not> n < 2"
    then have "1 < n" by simp
    with n(2) have "listable head96 (67 + 26 * 1)" by blast
    with head96_facts(9) show False by simp
  qed
  ultimately have n1: "n = 1" by simp
  have y: "yielded (interpret_tape_header ?s)
        = [''Tape label:'', CHR 0x09 # ''TAPE'', ''File list:'', CHR 0x09 # ''PROG.BAS'']"
    using n(1) head96_facts(10,11) by (simp add: n1)
  let ?t = "tape0\<lparr>records := [[0xAA, 1, 2, 3, 0]]\<rparr>"
  have "interpret_tape_header ?t = \<lparr>yielded = [], printed = [], raised = None\<rparr>"
    using tape_header_fields [of ?t "[0xAA, 1, 2, 3, 0]"] by simp
  with r head96_facts(1-6) y show ?thesis by simp
qed

text \<open>
  C6 as stated fails on the header of 93 bytes: the slot at offset 67 starts with \<open>A\<close>
  and its 26 bytes are all there, yet no file is listed, because fewer than 29 bytes
  remain.
\<close>

theorem full_slot_counterexample:
  "0x20 < head93 ! 67 \<and> head93 ! 67 < 0x6E \<and> 67 + 26 \<le> length head93
   \<and> interpret_tape_header (tape0\<lparr>records := [head93]\<rparr>)
       = \<lparr>yielded = [''Tape label:'', [CHR 0x09], ''File list:''], printed = [], raised = None\<rparr>"
  unfolding head93_def tape0_def by code_simp

text \<open>
  Two ways in which the listing ends with an exception: \<^verbatim>\<open>head[index]\<close> is read before
  the length is tested, so a recognised header shorter than 68 bytes raises
  \<^verbatim>\<open>IndexError\<close> after the line \<open>File list:\<close>; and the label is decoded outside the
  \<^verbatim>\<open>try\<close> block, so a label that is not ASCII raises \<^verbatim>\<open>UnicodeDecodeError\<close>.
\<close>

lemma header_short_record_raises:
  assumes "records s \<noteq> []" and "3 \<le> length (hd (records s))" and "length (hd (records s)) < 68"
    and "hd (records s) ! 0 = 0xAA" and "hd (records s) ! 1 = 0" and "hd (records s) ! 2 = 0"
    and "is_ascii (slice (hd (records s)) 4 54)"
  shows "raised (interpret_tape_header s) = Some IndexError"
  using assms
  by (simp add: header_present gen_yield_def)
     (subst file_loop.simps, simp add: gen_raise_def)

lemma header_label_raises:
  assumes "records s \<noteq> []" and "3 \<le> length (hd (records s))"
    and "hd (records s) ! 0 = 0xAA" and "hd (records s) ! 1 = 0" and "hd (records s) ! 2 = 0"
    and "\<not> is_ascii (slice (hd (records s)) 4 54)"
  shows "interpret_tape_header s = \<lparr>yielded = [], printed = [], raised = Some UnicodeDecodeError\<rparr>"
  using assms by (auto simp add: interpret_tape_header_def Let_def decode_ascii_eq gen_raise_def)

section \<open>The estimate of the bit time\<close>

text \<open>
  The update \<^verbatim>\<open>self.tbit += (pulse_width - self.tbit) / AVG\<close> rounds twice, in the
  subtraction and in the addition; the division by 2 is exact. The result is the average
  of the estimate and the pulse width when neither rounds, and near it otherwise.
\<close>

lemma data_run_step:
  assumes "data_run t T s (e # es)" and "\<bar>T\<bar> < 2 ^ 53"
  shows "analyze_step t s e =
           Inr (s\<lparr>nbr_priv := fst e, tbit := fl (tbit s + fl (of_int T - tbit s) / 2),
                  bits := bits s @ [bit_of e]\<rparr>)"
    and "data_run t T (s\<lparr>nbr_priv := fst e, tbit := fl (tbit s + fl (of_int T - tbit s) / 2),
                  bits := bits s @ [bit_of e]\<rparr>) es"
proof -
  from assms(1) have c: "fst e - nbr_priv s = T" "tbit s \<noteq> 0" "\<not> real_of_int T > 4 * tbit s"
    "\<not> (real_of_int T < fl (EDGE * tbit s) \<and> length (bits s) > 7)"
    by simp_all
  have f: "float_of_int T = of_int T" using assms(2) by (rule float_of_int_exact)
  from c show st: "analyze_step t s e =
           Inr (s\<lparr>nbr_priv := fst e, tbit := fl (tbit s + fl (of_int T - tbit s) / 2),
                  bits := bits s @ [bit_of e]\<rparr>)"
    unfolding analyze_step_def Let_def c(1) f data_update
    by (auto simp add: bit_of_def)
  from assms(1) show "data_run t T (s\<lparr>nbr_priv := fst e, tbit := fl (tbit s + fl (of_int T - tbit s) / 2),
                  bits := bits s @ [bit_of e]\<rparr>) es"
    by (simp add: st)
qed

lemma exact_halving:
  assumes "fl (T - x) = T - x" and "fl (x + (T - x) / 2) = x + (T - x) / 2"
  shows "\<bar>fl (x + fl (T - x) / 2) - T\<bar> = \<bar>x - T\<bar> / 2"
proof -
  have "x + (T - x) / 2 - T = (x - T) / 2" by argo
  then have "\<bar>x + (T - x) / 2 - T\<bar> = \<bar>(x - T) / 2\<bar>" by (simp only:)
  also have "\<dots> = \<bar>x - T\<bar> / 2" by simp
  finally show ?thesis by (simp only: assms)
qed

lemma rounded_average_bound:
  "\<bar>fl (x + fl (T - x) / 2) - T\<bar> \<le> (1 + 1 / 2 ^ 53)\<^sup>2 / 2 * \<bar>x - T\<bar> + \<bar>T\<bar> / 2 ^ 53"
proof -
  define eps :: real where "eps = 1 / 2 ^ 53"
  define d where "d = \<bar>x - T\<bar>"
  define a where "a = fl (T - x)"
  define y where "y = x + a / 2"
  have eps: "0 < eps" by (simp add: eps_def)
  have d: "0 \<le> d" by (simp add: d_def)
  have "\<bar>a - (T - x)\<bar> \<le> \<bar>T - x\<bar> / 2 ^ 53" unfolding a_def by (rule fl_error)
  then have 1: "\<bar>a - (T - x)\<bar> \<le> d * eps" by (simp add: d_def eps_def abs_minus_commute)
  have "y - T = (x - T) / 2 + (a - (T - x)) / 2" unfolding y_def by argo
  moreover have "\<bar>(x - T) / 2 + (a - (T - x)) / 2\<bar> \<le> \<bar>(x - T) / 2\<bar> + \<bar>(a - (T - x)) / 2\<bar>"
    by (rule abs_triangle_ineq)
  ultimately have "\<bar>y - T\<bar> \<le> d / 2 + \<bar>a - (T - x)\<bar> / 2" by (simp add: d_def)
  moreover from 1 have "\<bar>a - (T - x)\<bar> / 2 \<le> d * eps / 2" by simp
  ultimately have 2: "\<bar>y - T\<bar> \<le> d / 2 + d * eps / 2" by (rule order_trans [OF _ add_left_mono])
  then have 3: "\<bar>y\<bar> \<le> \<bar>T\<bar> + d / 2 + d * eps / 2" by linarith
  have "\<bar>fl y - y\<bar> \<le> \<bar>y\<bar> / 2 ^ 53" by (rule fl_error)
  then have "\<bar>fl y - y\<bar> \<le> \<bar>y\<bar> * eps" by (simp add: eps_def)
  also from 3 eps have "\<dots> \<le> (\<bar>T\<bar> + d / 2 + d * eps / 2) * eps"
    by (intro mult_right_mono) simp_all
  finally have 4: "\<bar>fl y - y\<bar> \<le> (\<bar>T\<bar> + d / 2 + d * eps / 2) * eps" .
  have "\<bar>fl y - T\<bar> \<le> \<bar>fl y - y\<bar> + \<bar>y - T\<bar>" by linarith
  with 2 4 have "\<bar>fl y - T\<bar> \<le> (\<bar>T\<bar> + d / 2 + d * eps / 2) * eps + (d / 2 + d * eps / 2)"
    by linarith
  also have "\<dots> = (1 + eps)\<^sup>2 / 2 * d + \<bar>T\<bar> * eps"
    by (simp add: power2_eq_square field_simps)
  finally show ?thesis by (simp add: y_def a_def d_def eps_def)
qed

lemma contraction: "(1 + 1 / 2 ^ 53)\<^sup>2 / 2 \<le> (3 / 4 :: real)" "0 \<le> (1 + 1 / 2 ^ 53)\<^sup>2 / (2 :: real)"
  by (simp_all add: power2_eq_square)

lemma data_run_bound:
  assumes "\<bar>T\<bar> < 2 ^ 53"
  shows "data_run t T s es \<Longrightarrow>
     \<exists>s'. analyze_loop t s es = Inr s'
        \<and> length (bits s') = length (bits s) + length es
        \<and> \<bar>tbit s' - of_int T\<bar>
            \<le> ((1 + 1 / 2 ^ 53)\<^sup>2 / 2) ^ length es * \<bar>tbit s - of_int T\<bar>
              + \<bar>of_int T\<bar> / 2 ^ 51 * (1 - ((1 + 1 / 2 ^ 53)\<^sup>2 / 2) ^ length es)"
proof (induction es arbitrary: s)
  case Nil
  then show ?case by simp
next
  case (Cons e es)
  define q :: real where "q = (1 + 1 / 2 ^ 53)\<^sup>2 / 2"
  define D where "D = \<bar>tbit s - of_int T\<bar>"
  define B where "B = \<bar>real_of_int T\<bar> / 2 ^ 53"
  define Q where "Q = q ^ length es"
  let ?s1 = "s\<lparr>nbr_priv := fst e, tbit := fl (tbit s + fl (of_int T - tbit s) / 2),
                  bits := bits s @ [bit_of e]\<rparr>"
  have q: "0 \<le> q" "q \<le> 3 / 4" using contraction by (simp_all add: q_def)
  have B: "0 \<le> B" by (simp add: B_def)
  have Q: "0 \<le> Q" unfolding Q_def using q(1) by simp
  from data_run_step [OF Cons.prems assms]
  have st: "analyze_step t s e = Inr ?s1" and r: "data_run t T ?s1 es" by simp_all
  from Cons.IH [OF r] obtain s' where s': "analyze_loop t ?s1 es = Inr s'"
    "length (bits s') = length (bits ?s1) + length es"
    "\<bar>tbit s' - of_int T\<bar> \<le> Q * \<bar>tbit ?s1 - of_int T\<bar> + 4 * B * (1 - Q)"
    unfolding q_def Q_def B_def by auto
  have b: "\<bar>tbit ?s1 - of_int T\<bar> \<le> q * D + B"
    unfolding q_def D_def B_def using rounded_average_bound [of "tbit s" "of_int T"] by simp
  have "Q * \<bar>tbit ?s1 - of_int T\<bar> \<le> Q * (q * D + B)"
    using b Q by (rule mult_left_mono)
  with s'(3) have 1: "\<bar>tbit s' - of_int T\<bar> \<le> Q * q * D + (Q * B + 4 * B * (1 - Q))"
    by (simp add: algebra_simps)
  have "Q * q \<le> Q * (3 / 4)" using q(2) Q by (rule mult_left_mono)
  then have "4 * (Q * q) * B \<le> 3 * Q * B" using B by (intro mult_right_mono) simp_all
  then have "Q * B + 4 * B * (1 - Q) \<le> 4 * B * (1 - Q * q)" by (simp add: algebra_simps)
  with 1 have "\<bar>tbit s' - of_int T\<bar> \<le> Q * q * D + 4 * B * (1 - Q * q)" by linarith
  moreover have "Q * q = q ^ length (e # es)" by (simp add: Q_def)
  ultimately have 2: "\<bar>tbit s' - of_int T\<bar>
      \<le> q ^ length (e # es) * D + 4 * B * (1 - q ^ length (e # es))"
    by (simp only:)
  have 3: "analyze_loop t s (e # es) = Inr s'" by (simp add: st s'(1))
  have 4: "length (bits s') = length (bits s) + length (e # es)" using s'(2) by simp
  have 5: "4 * B = \<bar>real_of_int T\<bar> / 2 ^ 51" by (simp add: B_def)
  from 2 3 4 show ?case unfolding 5 q_def D_def by blast
qed

lemma data_run_append:
  "data_run t T s (xs @ ys) \<longleftrightarrow>
     data_run t T s xs
     \<and> (case analyze_loop t s xs of Inl err \<Rightarrow> False | Inr s1 \<Rightarrow> data_run t T s1 ys)"
  by (induction xs arbitrary: s) (auto split: sum.splits)

lemma repr_100: "i \<le> 51 \<Longrightarrow> fl (of_int 100 + of_int 96 / 2 ^ (0 + i)) = of_int 100 + of_int 96 / 2 ^ (0 + i)"
proof (cases "i \<le> 45")
  case True
  then have "(2::int) ^ i \<le> 2 ^ 45" by (intro power_increasing) simp_all
  then have "\<bar>100 * 2 ^ i + (96::int)\<bar> < 2 ^ 53" by simp
  from fl_plus_ratio [OF this] show ?thesis by simp
next
  case False
  assume \<open>i \<le> 51\<close>
  define k where "k = i - 5"
  with False \<open>i \<le> 51\<close> have k: "i = 5 + k" "k \<le> 46" by simp_all
  from k(2) have "(2::int) ^ k \<le> 2 ^ 46" by (intro power_increasing) simp_all
  then have "\<bar>100 * 2 ^ k + (3::int)\<bar> < 2 ^ 53" by simp
  from fl_plus_ratio [OF this] have "fl (100 + 3 / 2 ^ k) = 100 + 3 / 2 ^ k" by simp
  moreover have "(96::real) / 2 ^ (5 + k) = 3 / 2 ^ k" by (simp add: power_add)
  ultimately show ?thesis by (simp add: k(1))
qed

lemma run51:
  "analyze_loop track0 tape0 edges51 = Inr tape51 \<and> data_run track0 100 tape0 edges51"
proof -
  have 1: "tbit tape0 = of_int 100 + of_int 96 / 2 ^ 0" by (simp add: tape0_def)
  have 2: "4 * 96 \<le> (100::int) * 2 ^ (0 + (8 - length (bits tape0)))" by (simp add: tape0_def)
  have 3: "nbr_priv tape0 = 0" by (simp add: tape0_def)
  have 4: "(100::real) + 96 / 2 ^ 51 = 100 + 3 / 2 ^ 46" by simp
  from spaced_run [where T = 100 and c = 96 and s = tape0 and j = 0 and n = 51 and t = track0 and sg = 1,
      OF _ _ _ _ 1 2 repr_100]
  show ?thesis unfolding 3 edges51_def tape51_def by (simp add: tape0_def 4)
qed

text \<open>
  The 52nd edge meets the estimate \<open>100 + 3 * 2\<^sup>-\<^sup>4\<^sup>6\<close>. The average
  \<open>100 + 3 * 2\<^sup>-\<^sup>4\<^sup>7\<close> lies halfway between two floats and is rounded to the even one,
  \<open>100 + 2 * 2\<^sup>-\<^sup>4\<^sup>6\<close>.
\<close>

lemma average51: "fl (tbit tape51 + fl (100 - tbit tape51) / 2) = 100 + 1 / 2 ^ 45"
proof -
  have a: "fl (100 - tbit tape51) = 100 - tbit tape51"
    using fl_ratio [of "- 3" 46] by (simp add: tape51_def)
  let ?y = "tbit tape51 + (100 - tbit tape51) / 2"
  have lo: "2 powi 6 \<le> \<bar>?y\<bar>" and hi: "\<bar>?y\<bar> < 2 powi (6 + 1)"
    by (simp_all add: tape51_def)
  have q: "(2::real) powi (6 - 52) = 1 / 2 ^ 46" by (simp add: power_int_minus field_simps)
  have "?y / (1 / 2 ^ 46) = of_int (100 * 2 ^ 46 + 1) + 1 / 2" by (simp add: tape51_def)
  then have "round_even (?y / (1 / 2 ^ 46)) = 100 * 2 ^ 46 + 2"
    by (simp only: round_even_tie) simp
  with fl_eval [OF lo hi] have y: "fl ?y = 100 + 1 / 2 ^ 45" by (simp add: q)
  show ?thesis unfolding a by (rule y)
qed

lemma data52: "data_run track0 100 tape51 [(5200, - 1)]"
proof -
  have f: "nbr_priv tape51 = 5100" "tbit tape51 = 100 + 3 / 2 ^ 46" by (simp_all add: tape51_def)
  have x: "0 < tbit tape51" by (simp add: f)
  have "72 / 100 * tbit tape51 * (1 + 1 / 2 ^ 53) < 100" by (simp add: f)
  with edge_product_upper [OF x] have ng: "\<not> 100 < fl (EDGE * tbit tape51)" by simp
  have "\<exists>s1. analyze_step track0 tape51 (5200, - 1) = Inr s1"
    using analyze_step_total [of tape51] x by simp
  with ng x show ?thesis by (auto simp add: f)
qed

text \<open>
  C9. In the data case the new estimate is the binary64 value of
  \<^verbatim>\<open>tbit + (pulse_width - tbit) / 2\<close>: the average of the old estimate and the pulse width,
  rounded in the subtraction and in the addition. Over a run of accepted edges of the
  same pulse width \<open>T\<close> every edge gives a bit, and an edge halves the distance
  \<open>\<bar>tbit - T\<bar>\<close> when the difference \<open>T - tbit\<close> and the average are binary64 numbers. In
  every case an edge brings the distance below \<open>(1 + 2\<^sup>-\<^sup>5\<^sup>3)\<^sup>2 / 2\<close> times the distance
  before it plus \<open>\<bar>T\<bar> * 2\<^sup>-\<^sup>5\<^sup>3\<close>, and \<open>n\<close> edges bring it below that factor to the power
  \<open>n\<close> times the first distance plus \<open>\<bar>T\<bar> * 2\<^sup>-\<^sup>5\<^sup>1\<close>.
\<close>

theorem estimate_rounded_average:
  assumes "data_run t T s (e # es)" and "\<bar>T\<bar> < 2 ^ 53"
  shows "\<exists>s1 s'. analyze_step t s e = Inr s1 \<and> analyze_loop t s (e # es) = Inr s'
     \<and> tbit s1 = fl (tbit s + fl (of_int T - tbit s) / 2)
     \<and> (fl (of_int T - tbit s) = of_int T - tbit s
          \<and> fl (tbit s + (of_int T - tbit s) / 2) = tbit s + (of_int T - tbit s) / 2
        \<longrightarrow> tbit s1 = (tbit s + of_int T) / 2
          \<and> \<bar>tbit s1 - of_int T\<bar> = \<bar>tbit s - of_int T\<bar> / 2)
     \<and> \<bar>tbit s1 - of_int T\<bar>
         \<le> (1 + 1 / 2 ^ 53)\<^sup>2 / 2 * \<bar>tbit s - of_int T\<bar> + \<bar>of_int T\<bar> / 2 ^ 53
     \<and> length (bits s') = length (bits s) + length (e # es)
     \<and> \<bar>tbit s' - of_int T\<bar>
         \<le> ((1 + 1 / 2 ^ 53)\<^sup>2 / 2) ^ length (e # es) * \<bar>tbit s - of_int T\<bar>
           + \<bar>of_int T\<bar> / 2 ^ 51"
proof -
  let ?q = "(1 + 1 / 2 ^ 53)\<^sup>2 / (2::real)"
  let ?s1 = "s\<lparr>nbr_priv := fst e, tbit := fl (tbit s + fl (of_int T - tbit s) / 2),
                  bits := bits s @ [bit_of e]\<rparr>"
  from data_run_step(1) [OF assms] have st: "analyze_step t s e = Inr ?s1" .
  from data_run_bound [OF assms(2) assms(1)] obtain s' where
    s': "analyze_loop t s (e # es) = Inr s'"
      "length (bits s') = length (bits s) + length (e # es)"
      "\<bar>tbit s' - of_int T\<bar> \<le> ?q ^ length (e # es) * \<bar>tbit s - of_int T\<bar>
              + \<bar>of_int T\<bar> / 2 ^ 51 * (1 - ?q ^ length (e # es))"
    by blast
  have "0 \<le> ?q ^ length (e # es)" by simp
  then have "\<bar>real_of_int T\<bar> / 2 ^ 51 * (1 - ?q ^ length (e # es)) \<le> \<bar>real_of_int T\<bar> / 2 ^ 51 * 1"
    by (intro mult_left_mono) simp_all
  with s'(3) have n: "\<bar>tbit s' - of_int T\<bar>
      \<le> ?q ^ length (e # es) * \<bar>tbit s - of_int T\<bar> + \<bar>of_int T\<bar> / 2 ^ 51"
    by linarith
  have t1: "tbit ?s1 = fl (tbit s + fl (of_int T - tbit s) / 2)" by simp
  have h: "fl (of_int T - tbit s) = of_int T - tbit s
          \<and> fl (tbit s + (of_int T - tbit s) / 2) = tbit s + (of_int T - tbit s) / 2
        \<longrightarrow> tbit ?s1 = (tbit s + of_int T) / 2
          \<and> \<bar>tbit ?s1 - of_int T\<bar> = \<bar>tbit s - of_int T\<bar> / 2"
  proof
    assume a: "fl (of_int T - tbit s) = of_int T - tbit s
          \<and> fl (tbit s + (of_int T - tbit s) / 2) = tbit s + (of_int T - tbit s) / 2"
    then have "tbit ?s1 = tbit s + (of_int T - tbit s) / 2" by simp
    also have "\<dots> = (tbit s + of_int T) / 2" by (simp add: field_simps)
    finally have "tbit ?s1 = (tbit s + of_int T) / 2" .
    moreover from a exact_halving [of "of_int T" "tbit s"]
    have "\<bar>tbit ?s1 - of_int T\<bar> = \<bar>tbit s - of_int T\<bar> / 2" by simp
    ultimately show "tbit ?s1 = (tbit s + of_int T) / 2
          \<and> \<bar>tbit ?s1 - of_int T\<bar> = \<bar>tbit s - of_int T\<bar> / 2" by (rule conjI)
  qed
  have b: "\<bar>tbit ?s1 - of_int T\<bar>
         \<le> ?q * \<bar>tbit s - of_int T\<bar> + \<bar>of_int T\<bar> / 2 ^ 53"
    using rounded_average_bound [of "tbit s" "of_int T"] by simp
  from st s'(1) t1 h b s'(2) n show ?thesis by blast
qed

theorem estimate_rounded_average_witness:
  "data_run track0 100 tape0 [(100, 1), (200, - 1)] \<and> \<bar>100 :: int\<bar> < 2 ^ 53
   \<and> fl (of_int 100 - tbit tape0) = of_int 100 - tbit tape0
   \<and> fl (tbit tape0 + (of_int 100 - tbit tape0) / 2) = tbit tape0 + (of_int 100 - tbit tape0) / 2
   \<and> analyze_step track0 tape0 (100, 1) = Inr (tape0\<lparr>nbr_priv := 100, tbit := 148, bits := [False]\<rparr>)
   \<and> \<bar>148 - of_int 100\<bar> = \<bar>tbit tape0 - of_int 100\<bar> / (2 :: real)
   \<and> analyze_loop track0 tape0 [(100, 1), (200, - 1)]
       = Inr (tape0\<lparr>nbr_priv := 200, tbit := 124, bits := [False, True]\<rparr>)"
proof -
  have e: "[(100, 1), (200, - 1)] = spaced (nbr_priv tape0) 100 1 2"
    by (simp add: tape0_def numeral_2_eq_2)
  have 1: "tbit tape0 = of_int 100 + of_int 96 / 2 ^ 0" by (simp add: tape0_def)
  have 2: "4 * 96 \<le> (100::int) * 2 ^ (0 + (8 - length (bits tape0)))" by (simp add: tape0_def)
  have r: "\<And>i. i \<le> 2 \<Longrightarrow> fl (of_int 100 + of_int 96 / 2 ^ (0 + i)) = of_int 100 + of_int 96 / 2 ^ (0 + i)"
    by (rule repr_100) simp
  from spaced_run [where T = 100 and c = 96 and s = tape0 and j = 0 and n = 2 and t = track0 and sg = 1,
      OF _ _ _ _ 1 2 r]
  have lp: "analyze_loop track0 tape0 [(100, 1), (200, - 1)]
       = Inr (tape0\<lparr>nbr_priv := 200, tbit := 124, bits := [False, True]\<rparr>)"
    and h1: "data_run track0 100 tape0 [(100, 1), (200, - 1)]"
    unfolding e [symmetric] by (simp_all add: tape0_def bit_of_def)
  have h2: "\<bar>100 :: int\<bar> < 2 ^ 53" by simp
  have x1: "fl (of_int 100 - tbit tape0) = of_int 100 - tbit tape0"
    using fl_int [of "- 96"] by (simp add: tape0_def)
  have x2: "fl (tbit tape0 + (of_int 100 - tbit tape0) / 2) = tbit tape0 + (of_int 100 - tbit tape0) / 2"
    using fl_int [of 148] by (simp add: tape0_def)
  from estimate_rounded_average [OF h1 h2] x1 x2 obtain s1 where
    s1: "analyze_step track0 tape0 (100, 1) = Inr s1" "tbit s1 = (tbit tape0 + of_int 100) / 2"
      "\<bar>tbit s1 - of_int 100\<bar> = \<bar>tbit tape0 - of_int 100\<bar> / 2"
    by blast
  have m: "fl (- 96) = - 96" "fl 148 = 148" using fl_int [of "- 96"] fl_int [of 148] by simp_all
  from data_run_step(1) [OF h1 h2] s1(1)
  have "s1 = tape0\<lparr>nbr_priv := 100, tbit := tbit s1, bits := [False]\<rparr>"
    by (simp add: s1(2) m tape0_def bit_of_def)
  with s1 have "analyze_step track0 tape0 (100, 1) = Inr (tape0\<lparr>nbr_priv := 100, tbit := 148, bits := [False]\<rparr>)"
    and "\<bar>148 - of_int 100\<bar> = \<bar>tbit tape0 - of_int 100\<bar> / (2 :: real)"
    by (simp_all add: tape0_def)
  with h1 h2 x1 x2 lp show ?thesis by simp
qed

text \<open>
  The distance is not halved by every accepted edge. On the edges of \<open>edges51\<close>, which
  are accepted as data bits with pulse width 100, the analysis of \<open>track0\<close> comes to the
  estimate \<open>100 + 3 * 2\<^sup>-\<^sup>4\<^sup>6\<close>. The next edge of pulse width 100 is accepted too and leaves
  the estimate \<open>100 + 2 * 2\<^sup>-\<^sup>4\<^sup>6\<close>: the distance to 100 goes from \<open>3 * 2\<^sup>-\<^sup>4\<^sup>6\<close> to
  \<open>2 * 2\<^sup>-\<^sup>4\<^sup>6\<close>.
\<close>

theorem rounded_halving_counterexample:
  "tape0\<lparr>tbit := seed track0, bits := [], nbr_priv := 0\<rparr> = tape0
   \<and> analyze_loop track0 tape0 edges51 = Inr tape51
   \<and> data_run track0 100 tape0 (edges51 @ [(5200, - 1)])
   \<and> analyze_step track0 tape51 (5200, - 1)
       = Inr (tape51\<lparr>nbr_priv := 5200, tbit := 100 + 1 / 2 ^ 45, bits := bits tape51 @ [True]\<rparr>)
   \<and> \<bar>tbit tape51 - 100\<bar> / 2 = 3 / 2 ^ 47
   \<and> \<bar>100 + 1 / 2 ^ 45 - 100 :: real\<bar> = 1 / 2 ^ 45
   \<and> \<bar>100 + 1 / 2 ^ 45 - 100 :: real\<bar> \<noteq> \<bar>tbit tape51 - 100\<bar> / 2"
proof -
  have t0: "tape0\<lparr>tbit := seed track0, bits := [], nbr_priv := 0\<rparr> = tape0"
    by (simp add: tape0_def seed_track0)
  have f: "nbr_priv tape51 = 5100" "tbit tape51 = 100 + 3 / 2 ^ 46" by (simp_all add: tape51_def)
  have pw: "fst (5200 :: int, - 1 :: int) - nbr_priv tape51 = 100" by (simp add: f)
  have dr: "data_run track0 100 tape0 (edges51 @ [(5200, - 1)])"
    using run51 data52 by (simp add: data_run_append)
  have "analyze_step track0 tape51 (5200, - 1)
       = Inr (tape51\<lparr>nbr_priv := fst (5200 :: int, - 1 :: int),
                tbit := fl (tbit tape51 + fl (of_int 100 - tbit tape51) / 2),
                bits := bits tape51 @ [bit_of (5200, - 1)]\<rparr>)"
    by (rule data_run_step(1) [OF data52]) simp
  then have st: "analyze_step track0 tape51 (5200, - 1)
       = Inr (tape51\<lparr>nbr_priv := 5200, tbit := 100 + 1 / 2 ^ 45, bits := bits tape51 @ [True]\<rparr>)"
    using average51 by (simp add: bit_of_def)
  have d: "\<bar>tbit tape51 - 100\<bar> / 2 = 3 / 2 ^ 47" by (simp add: f)
  from t0 run51 dr st d show ?thesis by simp
qed

end
